theory Spec2Isabelle
  imports Main
begin

section \<open>Python string primitives used by the writer and the parser\<close>

text \<open>
  Documents are Python \<open>str\<close> values; they are modelled as \<open>string\<close> (character lists),
  one \<open>char\<close> per code point below 256. Offsets are natural numbers: every index the
  source computes is non-negative.
\<close>

text \<open>\<open>s.startswith(p)\<close>, pattern first.\<close>

fun starts_with :: "string \<Rightarrow> string \<Rightarrow> bool" where
  "starts_with [] s = True"
| "starts_with (a # p) [] = False"
| "starts_with (a # p) (c # s) = (a = c \<and> starts_with p s)"

text \<open>\<open>p in s\<close>.\<close>

fun contains :: "string \<Rightarrow> string \<Rightarrow> bool" where
  "contains p [] = (p = [])"
| "contains p (c # s) = (starts_with p (c # s) \<or> contains p s)"

text \<open>\<open>s.find(p)\<close>; \<open>None\<close> stands for \<open>-1\<close>.\<close>

fun find_sub :: "string \<Rightarrow> string \<Rightarrow> nat option" where
  "find_sub p [] = (if p = [] then Some 0 else None)"
| "find_sub p (c # s) =
     (if starts_with p (c # s) then Some 0 else map_option Suc (find_sub p s))"

text \<open>\<open>s.rfind(p)\<close>; \<open>None\<close> stands for \<open>-1\<close>.\<close>

fun rfind_sub :: "string \<Rightarrow> string \<Rightarrow> nat option" where
  "rfind_sub p [] = (if p = [] then Some 0 else None)"
| "rfind_sub p (c # s) =
     (case rfind_sub p s of
        Some i \<Rightarrow> Some (Suc i)
      | None \<Rightarrow> if starts_with p (c # s) then Some 0 else None)"

text \<open>\<open>s.count(p)\<close>: occurrences counted left to right without overlap.\<close>

fun count_sub :: "string \<Rightarrow> string \<Rightarrow> nat" where
  "count_sub p [] = (if p = [] then 1 else 0)"
| "count_sub p (c # s) =
     (if starts_with p (c # s) then Suc (count_sub p (drop (length p - 1) s))
      else count_sub p s)"

text \<open>\<open>s.replace(p, r)\<close>: every occurrence found left to right without overlap.\<close>

fun replace_sub :: "string \<Rightarrow> string \<Rightarrow> string \<Rightarrow> string" where
  "replace_sub p r [] = (if p = [] then r else [])"
| "replace_sub p r (c # s) =
     (if starts_with p (c # s)
      then (if p = [] then r @ c # replace_sub p r s
            else r @ replace_sub p r (drop (length p - 1) s))
      else c # replace_sub p r s)"

text \<open>The slice \<open>s[a:b]\<close> for offsets \<open>0 \<le> a\<close>, \<open>0 \<le> b\<close>; empty when \<open>b \<le> a\<close>.\<close>

definition slice :: "nat \<Rightarrow> nat \<Rightarrow> string \<Rightarrow> string" where
  "slice a b s = take (b - a) (drop a s)"

text \<open>\<open>s.split(d)\<close> for a one-character separator: \<open>''.split(d) = ['']\<close>.\<close>

fun split_chr :: "char \<Rightarrow> string \<Rightarrow> string list" where
  "split_chr d [] = [[]]"
| "split_chr d (c # s) =
     (if c = d then [] # split_chr d s
      else (case split_chr d s of
              [] \<Rightarrow> [[c]]
            | f # fs \<Rightarrow> (c # f) # fs))"

text \<open>\<open>sep.join(xs)\<close>.\<close>

fun join :: "string \<Rightarrow> string list \<Rightarrow> string" where
  "join sep [] = []"
| "join sep [x] = x"
| "join sep (x # y # ys) = x @ sep @ join sep (y # ys)"

section \<open>Key codec: the tree-status key\<close>

text \<open>
  \<open>_ensure_group_tree_status_ascension\<close>, the key computation:
  \<^verbatim>\<open>
  parts = group_path.split('`')
  path_parts = ["1"]
  for i in range(len(parts)):
      cumulative_path = '`'.join(parts[:i+1])
      path_parts.append(cumulative_path)
  gts_key = " ".join(path_parts)
  \<close>
\<close>

fun gts_loop :: "string list \<Rightarrow> nat list \<Rightarrow> string list \<Rightarrow> string list" where
  "gts_loop parts [] path_parts = path_parts"
| "gts_loop parts (i # is) path_parts =
     gts_loop parts is (path_parts @ [join ''`'' (take (i + 1) parts)])"

definition gts_path_parts :: "string \<Rightarrow> string list" where
  "gts_path_parts group_path =
     (let parts = split_chr CHR ''`'' group_path
      in gts_loop parts [0 ..< length parts] [''1''])"

definition gts_key :: "string \<Rightarrow> string" where
  "gts_key group_path = join '' '' (gts_path_parts group_path)"

section \<open>Character classes, regular-expression fragments and the brace walk\<close>

text \<open>
  Python's \<open>\s\<close> (and \<open>str.strip\<close>) on \<open>str\<close>: the white-space code points below 256.
\<close>

definition is_space :: "char \<Rightarrow> bool" where
  "is_space c = (c \<in> set [CHR 0x09, CHR 0x0A, CHR 0x0B, CHR 0x0C, CHR 0x0D,
                            CHR 0x1C, CHR 0x1D, CHR 0x1E, CHR 0x1F, CHR 0x20,
                            CHR 0x85, CHR 0xA0])"

text \<open>Python's \<open>\d\<close>: below code point 256 the decimal digits are \<open>0\<close> to \<open>9\<close>.\<close>

definition is_digit :: "char \<Rightarrow> bool" where
  "is_digit c = (c \<in> set ''0123456789'')"

text \<open>\<open>int(ds)\<close> for a non-empty run of decimal digits.\<close>

definition int_of_digits :: "string \<Rightarrow> int" where
  "int_of_digits ds = foldl (\<lambda>n c. 10 * n + (of_char c - 48)) 0 ds"

text \<open>\<open>str(n)\<close> for a Python \<open>int\<close>.\<close>

fun str_nat :: "nat \<Rightarrow> string" where
  "str_nat n =
     (if n < 10 then [char_of (48 + n)]
      else str_nat (n div 10) @ [char_of (48 + n mod 10)])"

definition str_int :: "int \<Rightarrow> string" where
  "str_int i = (if i < 0 then CHR ''-'' # str_nat (nat (- i)) else str_nat (nat i))"

text \<open>
  The patterns \<open>LHS\s*=\s*RHS\<close> for literal \<open>LHS\<close> and \<open>RHS\<close>, tried at the start of
  \<open>s\<close>: the length of the match. Each white-space run is followed by a character that
  is no white space, so the greedy runs are the only way to match. The writer uses
  \<open>\["NAME"\]\s*=\s*\{\<close> (a table marker), \<open>\["KEY"\]\s*=\s*true\<close> (a flag),
  \<open>TradeSkillMasterDB\s*=\s*\{\<close> and \<open>\["KEY"\]\s*=\<close> (empty \<open>RHS\<close>; only the
  existence of a match is used there).
\<close>

definition match_assign_at :: "string \<Rightarrow> string \<Rightarrow> string \<Rightarrow> nat option" where
  "match_assign_at lhs rhs s =
     (if starts_with lhs s then
        (let r1 = drop (length lhs) s;
             w1 = takeWhile is_space r1;
             r2 = dropWhile is_space r1
         in if starts_with ''='' r2 then
              (let w2 = takeWhile is_space (tl r2);
                   r3 = dropWhile is_space (tl r2)
               in if starts_with rhs r3
                  then Some (length lhs + length w1 + 1 + length w2 + length rhs)
                  else None)
            else None)
      else None)"

text \<open>
  \<open>re.finditer\<close> for such a pattern: the matches \<open>(start, end)\<close> from left to right, the
  search resuming at the end of each match (\<open>pos\<close> is the offset of the text left; a
  match is never empty).
\<close>

fun finditer_from :: "string \<Rightarrow> string \<Rightarrow> nat \<Rightarrow> string \<Rightarrow> (nat \<times> nat) list" where
  "finditer_from lhs rhs pos [] = []"
| "finditer_from lhs rhs pos (c # s) =
     (case match_assign_at lhs rhs (c # s) of
        Some n \<Rightarrow> (pos, pos + n) # finditer_from lhs rhs (pos + n) (drop (n - 1) s)
      | None \<Rightarrow> finditer_from lhs rhs (pos + 1) s)"

definition quoted_key :: "string \<Rightarrow> string" where
  \<open>quoted_key name = ''["'' @ name @ ''"]''\<close>

text \<open>\<open>re.finditer(r'\["NAME"\]\s*=\s*\{', content)\<close>.\<close>

definition finditer_table :: "string \<Rightarrow> string \<Rightarrow> (nat \<times> nat) list" where
  "finditer_table name content = finditer_from (quoted_key name) ''{'' 0 content"

text \<open>\<open>re.search\<close>: the first match, if any.\<close>

definition search_assign :: "string \<Rightarrow> string \<Rightarrow> string \<Rightarrow> (nat \<times> nat) option" where
  "search_assign lhs rhs content =
     (case finditer_from lhs rhs 0 content of [] \<Rightarrow> None | m # _ \<Rightarrow> Some m)"

definition search_table :: "string \<Rightarrow> string \<Rightarrow> (nat \<times> nat) option" where
  "search_table name content = search_assign (quoted_key name) ''{'' content"

text \<open>
  The brace-counting walk, shared by the writer and the parser:
  \<^verbatim>\<open>
  while search_pos < len(content) and brace_count > 0:
      if content[search_pos] == '{':   brace_count += 1
      elif content[search_pos] == '}': brace_count -= 1
      search_pos += 1
  \<close>
  The first argument is \<open>content[search_pos:]\<close>; the result is the final
  \<open>(search_pos, brace_count)\<close>.
\<close>

fun brace_walk :: "string \<Rightarrow> nat \<Rightarrow> nat \<Rightarrow> nat \<times> nat" where
  "brace_walk [] search_pos brace_count = (search_pos, brace_count)"
| "brace_walk (c # s) search_pos brace_count =
     (if brace_count = 0 then (search_pos, brace_count)
      else brace_walk s (search_pos + 1)
             (if c = CHR ''{'' then brace_count + 1
              else if c = CHR ''}'' then brace_count - 1
              else brace_count))"

definition walk_from :: "string \<Rightarrow> nat \<Rightarrow> nat \<times> nat" where
  "walk_from content start = brace_walk (drop start content) start 1"

section \<open>The writer: locating tables\<close>

text \<open>\<open>content[:pos] + text + content[pos:]\<close>.\<close>

definition splice :: "nat \<Rightarrow> string \<Rightarrow> string \<Rightarrow> string" where
  "splice pos ins content = take pos content @ ins @ drop pos content"

definition tabs :: "nat \<Rightarrow> string" where
  "tabs n = replicate n (CHR 0x09)"

definition crlf :: string where
  "crlf = [CHR 0x0D, CHR 0x0A]"

definition nl :: string where
  "nl = [CHR 0x0A]"

text \<open>Membership in the literal \<open>' \t\r\n'\<close>.\<close>

definition is_blank :: "char \<Rightarrow> bool" where
  "is_blank c = (c \<in> set [CHR 0x20, CHR 0x09, CHR 0x0D, CHR 0x0A])"

text \<open>\<open>detect_tsm_format\<close>.\<close>

definition detect_tsm_format :: "string \<Rightarrow> string" where
  "detect_tsm_format content =
     (if contains ''AscensionTSMDB'' content then ''ascension''
      else if contains ''TradeSkillMasterDB'' content
              \<and> \<not> contains ''TradeSkillMasterDB = nil'' content then ''retail''
      else ''unknown'')"

text \<open>
  The look-back check every locator starts with (\<open>mstart\<close> is \<open>match.start()\<close>):
  \<^verbatim>\<open>
  start_check = max(0, match.start() - 500)
  preceding_text = content[start_check:match.start()]
  if '["groupTreeStatus"]' in preceding_text:
      gts_pos = preceding_text.rfind('["groupTreeStatus"]')
      segment = preceding_text[gts_pos:]
      if segment.count('{') > segment.count('}'):
          continue
  \<close>
\<close>

definition inside_group_tree_status :: "string \<Rightarrow> nat \<Rightarrow> bool" where
  \<open>inside_group_tree_status content mstart =
     (let start_check = (if mstart < 500 then 0 else mstart - 500);
          preceding_text = slice start_check mstart content
      in if contains ''["groupTreeStatus"]'' preceding_text then
           (case rfind_sub ''["groupTreeStatus"]'' preceding_text of
              None \<Rightarrow> False
            | Some gts_pos \<Rightarrow>
                (let segment = drop gts_pos preceding_text
                 in count_list segment CHR ''{'' > count_list segment CHR ''}''))
         else False)\<close>

text \<open>The content check: \<open>'true,' in table_content or '= true' in table_content\<close>.\<close>

definition has_boolean_flags :: "string \<Rightarrow> bool" where
  "has_boolean_flags table_content =
     (contains ''true,'' table_content \<or> contains ''= true'' table_content)"

text \<open>
  \<open>_find_real_groups_table\<close>: the loop over the matches. A match is returned with the
  walk's end offset only when the walk ended with \<open>brace_count == 0\<close>.
\<close>

fun find_real_groups_loop ::
  "string \<Rightarrow> (nat \<times> nat) list \<Rightarrow> ((nat \<times> nat) \<times> nat) option" where
  "find_real_groups_loop content [] = None"
| "find_real_groups_loop content (m # ms) =
     (if inside_group_tree_status content (fst m) then find_real_groups_loop content ms
      else (case walk_from content (snd m) of
              (search_pos, brace_count) \<Rightarrow>
                if brace_count = 0 then
                  (let table_content = slice (snd m) (search_pos - 1) content
                   in if has_boolean_flags table_content
                      then find_real_groups_loop content ms
                      else Some (m, search_pos))
                else find_real_groups_loop content ms))"

definition find_real_groups_table :: "string \<Rightarrow> ((nat \<times> nat) \<times> nat) option" where
  "find_real_groups_table content =
     find_real_groups_loop content (finditer_table ''groups'' content)"

text \<open>
  \<open>_find_real_items_table\<close>: the same two checks; the walk's final counter is not
  looked at.
\<close>

fun find_real_items_loop :: "string \<Rightarrow> (nat \<times> nat) list \<Rightarrow> (nat \<times> nat) option" where
  "find_real_items_loop content [] = None"
| "find_real_items_loop content (m # ms) =
     (if inside_group_tree_status content (fst m) then find_real_items_loop content ms
      else (case walk_from content (snd m) of
              (search_pos, brace_count) \<Rightarrow>
                (let table_content = slice (snd m) (search_pos - 1) content
                 in if has_boolean_flags table_content
                    then find_real_items_loop content ms
                    else Some m)))"

definition find_real_items_table :: "string \<Rightarrow> (nat \<times> nat) option" where
  "find_real_items_table content =
     find_real_items_loop content (finditer_table ''items'' content)"

text \<open>
  The condition under which the loop of \<open>_find_real_items_table\<close> passes over a match:
  one of its two checks fires.
\<close>

definition table_rejected :: "string \<Rightarrow> nat \<times> nat \<Rightarrow> bool" where
  "table_rejected content m =
     (inside_group_tree_status content (fst m)
      \<or> has_boolean_flags (slice (snd m) (fst (walk_from content (snd m)) - 1) content))"

section \<open>The writer: creating tables and entries\<close>

text \<open>
  \<open>_ensure_items_table_exists_ascension\<close>, first loop: the content is returned as it is
  as soon as one \<open>["items"]\<close> marker passes the look-back check.
\<close>

fun valid_items_exists :: "string \<Rightarrow> (nat \<times> nat) list \<Rightarrow> bool" where
  "valid_items_exists content [] = False"
| "valid_items_exists content (m # ms) =
     (if inside_group_tree_status content (fst m) then valid_items_exists content ms
      else True)"

text \<open>
  The loop over the \<open>["groups"]\<close> markers of \<open>_ensure_items_table_exists_ascension\<close> and
  \<open>_ensure_group_exists_ascension\<close>: the walk's end offset \<open>search_pos\<close> of the first
  marker that passes both checks (the loop breaks there).
\<close>

fun real_groups_end_loop :: "string \<Rightarrow> (nat \<times> nat) list \<Rightarrow> nat option" where
  "real_groups_end_loop content [] = None"
| "real_groups_end_loop content (m # ms) =
     (if inside_group_tree_status content (fst m) then real_groups_end_loop content ms
      else (case walk_from content (snd m) of
              (search_pos, brace_count) \<Rightarrow>
                if has_boolean_flags (slice (snd m) (search_pos - 1) content)
                then real_groups_end_loop content ms
                else Some search_pos))"

text \<open>\<open>while insert_pos < len(content) and content[insert_pos] in ' \t\r\n': insert_pos += 1\<close>,
  on \<open>content[insert_pos:]\<close>.\<close>

fun skip_blank :: "string \<Rightarrow> nat \<Rightarrow> nat" where
  "skip_blank [] insert_pos = insert_pos"
| "skip_blank (c # s) insert_pos =
     (if is_blank c then skip_blank s (insert_pos + 1) else insert_pos)"

definition items_section :: string where
  \<open>items_section =
     crlf @ tabs 3 @ ''["items"] = {'' @ crlf @ tabs 3 @ ''},'' @
     crlf @ tabs 3 @ ''["groupTreeCollapsedStatus"] = {'' @ crlf @ tabs 3 @ ''},'' @
     crlf @ tabs 3 @ ''["isBankui"] = false,'' @
     crlf @ tabs 3 @ ''["moveImportedItems"] = true,''\<close>

text \<open>
  The indentation taken from the line of \<open>["operations"]\<close>:
  \<^verbatim>\<open>
  line_start = content.rfind('\n', 0, insert_pos) + 1
  indent = content[line_start:insert_pos]
  if not indent.strip() == "": indent = "\t\t\t"
  \<close>
\<close>

definition line_indent :: "string \<Rightarrow> nat \<Rightarrow> string" where
  "line_indent content insert_pos =
     (let line_start = (case rfind_sub nl (take insert_pos content) of
                          None \<Rightarrow> 0
                        | Some i \<Rightarrow> i + 1);
          indent = slice line_start insert_pos content
      in if list_all is_space indent then indent else tabs 3)"

definition new_tables :: "string \<Rightarrow> string" where
  \<open>new_tables indent =
     ''["groups"] = {'' @ crlf @ indent @ ''},'' @ crlf @
     indent @ ''["items"] = {'' @ crlf @ indent @ ''},'' @ crlf @
     indent @ ''["groupTreeCollapsedStatus"] = {'' @ crlf @ indent @ ''},'' @ crlf @
     indent @ ''["isBankui"] = false,'' @ crlf @
     indent @ ''["moveImportedItems"] = true,'' @ crlf @ indent\<close>

definition default_tables :: string where
  \<open>default_tables =
     crlf @ tabs 3 @ ''["groups"] = {'' @ crlf @ tabs 3 @ ''},'' @
     crlf @ tabs 3 @ ''["items"] = {'' @ crlf @ tabs 3 @ ''},''\<close>

text \<open>Python's truth value of \<open>real_groups_end_pos\<close>: \<open>None\<close> and \<open>0\<close> are false.\<close>

definition truthy_pos :: "nat option \<Rightarrow> nat option" where
  "truthy_pos r = (if r = Some 0 then None else r)"

definition ensure_items_table_exists_ascension :: "string \<Rightarrow> string" where
  "ensure_items_table_exists_ascension content =
     (if valid_items_exists content (finditer_table ''items'' content) then content
      else
        (case truthy_pos (real_groups_end_loop content (finditer_table ''groups'' content)) of
           Some real_groups_end_pos \<Rightarrow>
             (let p1 = skip_blank (drop real_groups_end_pos content) real_groups_end_pos;
                  insert_pos = (if starts_with '','' (drop p1 content) then p1 + 1 else p1)
              in splice insert_pos items_section content)
         | None \<Rightarrow>
             (case search_table ''operations'' content of
                Some op_match \<Rightarrow>
                  (let insert_pos = fst op_match;
                       indent = line_indent content insert_pos
                   in splice insert_pos (new_tables indent) content)
              | None \<Rightarrow>
                  (case search_table ''Default'' content of
                     Some default_match \<Rightarrow> splice (snd default_match) default_tables content
                   | None \<Rightarrow> content))))"

text \<open>The default operation skeleton of a new group.\<close>

definition operation_block :: "string \<Rightarrow> string \<Rightarrow> string \<Rightarrow> string" where
  \<open>operation_block indent name sep =
     indent @ ''["'' @ name @ ''"] = {'' @ nl @
     indent @ tabs 1 @ ''"", -- [1]'' @ nl @
     indent @ ''}'' @ sep @ nl\<close>

definition group_entry :: "string \<Rightarrow> string" where
  \<open>group_entry group_path =
     tabs 4 @ ''["'' @ group_path @ ''"] = {'' @ nl @
     operation_block (tabs 5) ''Mailing'' '','' @
     operation_block (tabs 5) ''Auctioning'' '','' @
     operation_block (tabs 5) ''Crafting'' '','' @
     operation_block (tabs 5) ''Shopping'' '','' @
     operation_block (tabs 5) ''Warehousing'' [] @
     tabs 4 @ ''}''\<close>

definition groups_table_entry :: "string \<Rightarrow> string \<Rightarrow> string" where
  \<open>groups_table_entry indent group_path =
     ''["groups"] = {'' @ nl @
     indent @ tabs 1 @ ''["'' @ group_path @ ''"] = {'' @ nl @
     operation_block (indent @ tabs 2) ''Mailing'' '','' @
     operation_block (indent @ tabs 2) ''Auctioning'' '','' @
     operation_block (indent @ tabs 2) ''Crafting'' '','' @
     operation_block (indent @ tabs 2) ''Shopping'' '','' @
     operation_block (indent @ tabs 2) ''Warehousing'' '','' @
     indent @ tabs 1 @ ''},'' @ nl @
     indent @ ''},'' @ crlf @ indent\<close>

text \<open>\<open>while prev_char_idx > 0 and content[prev_char_idx] in ' \t\r\n': prev_char_idx -= 1\<close>.
  The index starts below \<open>len(content)\<close>: it is the walk's end offset less two, and the
  walk never passes the end of the text (lemma \<open>brace_walk_bounds\<close>).\<close>

fun prev_char_loop :: "string \<Rightarrow> nat \<Rightarrow> nat" where
  "prev_char_loop content 0 = 0"
| "prev_char_loop content (Suc i) =
     (if is_blank (content ! Suc i) then prev_char_loop content i else Suc i)"

text \<open>\<open>_ensure_group_exists_ascension\<close>. The source also computes \<open>line_before_close\<close>,
  which it never uses.\<close>

definition ensure_group_exists_ascension :: "string \<Rightarrow> string \<Rightarrow> string" where
  "ensure_group_exists_ascension group_path content =
     (case truthy_pos (map_option (\<lambda>search_pos. search_pos - 1)
             (real_groups_end_loop content (finditer_table ''groups'' content))) of
        Some insert_pos \<Rightarrow>
          (let prev_char_idx = prev_char_loop content (insert_pos - 1)
           in if content ! prev_char_idx = CHR ''{''
              then splice insert_pos (group_entry group_path @ '','' @ nl @ tabs 3) content
              else (let prefix = (if content ! prev_char_idx \<noteq> CHR '','' then '','' else [])
                    in splice insert_pos
                         (prefix @ group_entry group_path @ '','' @ nl @ tabs 3) content))
      | None \<Rightarrow>
          (case search_table ''operations'' content of
             Some op_match \<Rightarrow>
               (let insert_pos = fst op_match;
                    indent = line_indent content insert_pos
                in splice insert_pos (groups_table_entry indent group_path) content)
           | None \<Rightarrow> content))"

text \<open>\<open>_ensure_group_tree_status_ascension\<close>.\<close>

definition ensure_group_tree_status_ascension :: "string \<Rightarrow> string \<Rightarrow> string" where
  \<open>ensure_group_tree_status_ascension group_path content =
     (case search_table ''groupTreeStatus'' content of
        None \<Rightarrow> content
      | Some gts_match \<Rightarrow>
          (let gts_end = fst (walk_from content (snd gts_match));
               gts_content = slice (snd gts_match) gts_end content
           in case search_table ''groups'' gts_content of
                None \<Rightarrow> content
              | Some sub_groups_match \<Rightarrow>
                  (let inner_groups_start = snd gts_match + snd sub_groups_match;
                       inner_groups_end = fst (walk_from content inner_groups_start) - 1;
                       inner_groups_content = slice inner_groups_start inner_groups_end content
                   in if search_assign (quoted_key (gts_key group_path)) ''true''
                           inner_groups_content \<noteq> None
                      then content
                      else splice inner_groups_end
                             (nl @ tabs 5 @ ''["'' @ gts_key group_path @ ''"] = true,'')
                             content)))\<close>

text \<open>\<open>_ensure_group_exists_retail\<close>.\<close>

definition retail_block :: "string \<Rightarrow> string" where
  \<open>retail_block name =
     ''["'' @ name @ ''"] = {'' @ crlf @ ''"#Default",'' @ crlf @ ''},'' @ crlf\<close>

definition retail_group_entry :: "string \<Rightarrow> string" where
  \<open>retail_group_entry group_path =
     crlf @ ''["'' @ group_path @ ''"] = {'' @ crlf @
     retail_block ''Mailing'' @ retail_block ''Auctioning'' @ retail_block ''Crafting'' @
     retail_block ''Warehousing'' @ retail_block ''Vendoring'' @ retail_block ''Shopping'' @
     ''},''\<close>

definition ensure_group_exists_retail :: "string \<Rightarrow> string \<Rightarrow> string" where
  "ensure_group_exists_retail group_path content =
     (case search_assign ''TradeSkillMasterDB'' ''{'' content of
        None \<Rightarrow> content
      | Some m \<Rightarrow> splice (snd m) (retail_group_entry group_path) content)"

text \<open>\<open>ensure_group_exists\<close>. In the nested-profile branch the existence test looks only
  inside the table that \<open>_find_real_groups_table\<close> returned.\<close>

definition ensure_group_exists :: "string \<Rightarrow> string \<Rightarrow> string" where
  "ensure_group_exists group_path content =
     (if detect_tsm_format content = ''retail'' then
        (if search_table group_path content \<noteq> None then content
         else ensure_group_exists_retail group_path content)
      else
        (case find_real_groups_table content of
           None \<Rightarrow> ensure_group_exists_ascension group_path content
         | Some (real_groups_match, real_groups_end_pos) \<Rightarrow>
             (let search_pos = fst (walk_from content (snd real_groups_match));
                  real_groups_content = slice (snd real_groups_match) (search_pos - 1) content
              in if search_table group_path real_groups_content \<noteq> None then content
                 else ensure_group_exists_ascension group_path content)))"

text \<open>
  \<open>cleanup_ui_state\<close>: every \<open>["groupTreeCollapsedStatus"]\<close> table whose walk ends with
  \<open>brace_count == 0\<close> is replaced by an empty table, last match first, each walk on the
  content as changed so far.
\<close>

fun cleanup_loop :: "(nat \<times> nat) list \<Rightarrow> string \<Rightarrow> string" where
  "cleanup_loop [] content = content"
| "cleanup_loop (m # ms) content =
     (case walk_from content (snd m) of
        (search_pos, brace_count) \<Rightarrow>
          if brace_count = 0
          then cleanup_loop ms
                 (take (fst m) content @ quoted_key ''groupTreeCollapsedStatus'' @ '' = {}'' @
                  drop search_pos content)
          else cleanup_loop ms content)"

definition cleanup_ui_state :: "string \<Rightarrow> string" where
  "cleanup_ui_state content =
     cleanup_loop (rev (finditer_table ''groupTreeCollapsedStatus'' content)) content"

section \<open>The file system and the results\<close>

text \<open>
  What an operation sees of the outside: the document at \<open>self.filepath\<close> (\<open>None\<close> when
  there is no such file), whether reading, writing and copying succeed, the time stamp
  \<open>datetime.now().strftime("%Y%m%d_%H%M%S")\<close>, and the sibling \<open>backups\<close> directory
  (newest first). \<open>events\<close> records the copies and writes in the order they happen.
\<close>

datatype error =
    ReadFailed
  | WriteFailed
  | BackupFailed
  | GroupNotFound string
  | UnsupportedFormat string
  | ItemsTableNotFound

datatype event = BackupCopied string string | FileWritten string

record filesys =
  file_text :: "string option"
  read_ok :: bool
  write_ok :: bool
  backup_ok :: bool
  now :: string
  backups :: "(string \<times> string) list"
  events :: "event list"

text \<open>An operation returns its result dictionary, or an exception leaves it.\<close>

datatype 'r outcome = Returned 'r | Raised error

text \<open>\<open>with open(self.filepath, 'r', encoding='utf-8') as f: content = f.read()\<close>.\<close>

definition read_file :: "filesys \<Rightarrow> error + string" where
  "read_file fs =
     (case file_text fs of
        None \<Rightarrow> Inl ReadFailed
      | Some c \<Rightarrow> if read_ok fs then Inr c else Inl ReadFailed)"

text \<open>
  \<open>create_backup\<close>: \<open>None\<close> when the file does not exist; otherwise the directory is made
  and the file copied under a time-stamped name. \<open>mkdir\<close> and \<open>copy2\<close> may raise.
\<close>

definition backup_path_of :: "filesys \<Rightarrow> string" where
  "backup_path_of fs = ''backups/TradeSkillMaster_'' @ now fs @ ''.lua''"

definition create_backup :: "filesys \<Rightarrow> (error + string option) \<times> filesys" where
  "create_backup fs =
     (case file_text fs of
        None \<Rightarrow> (Inr None, fs)
      | Some c \<Rightarrow>
          if backup_ok fs then
            (let backup_path = backup_path_of fs
             in (Inr (Some backup_path),
                 fs\<lparr>backups := (backup_path, c) # backups fs,
                    events := events fs @ [BackupCopied backup_path c]\<rparr>))
          else (Inl BackupFailed, fs))"

text \<open>\<open>with open(self.filepath, 'w', encoding='utf-8') as f: f.write(content)\<close>.\<close>

definition write_file :: "string \<Rightarrow> filesys \<Rightarrow> (error + unit) \<times> filesys" where
  "write_file c fs =
     (if write_ok fs
      then (Inr (), fs\<lparr>file_text := Some c, events := events fs @ [FileWritten c]\<rparr>)
      else (Inl WriteFailed, fs))"

record add_groups_result =
  ag_added :: nat
  ag_skipped :: nat
  ag_errors :: "error list"
  groups_added :: "string list"

record add_items_result =
  added :: nat
  skipped :: nat
  errors :: "error list"

record remove_items_result =
  removed :: nat
  not_found :: nat
  rm_errors :: "error list"

record rename_group_result =
  renamed :: bool
  items_updated :: nat
  groups_updated :: nat
  rn_errors :: "error list"

record delete_group_result =
  deleted :: bool
  items_removed :: nat
  subgroups_removed :: nat
  dg_errors :: "error list"
  ui_refs_removed :: "nat option"

text \<open>
  What an operation may do to the file system: nothing; or copy the document it read to
  the time-stamped backup and then either fail to write (the document stays as it was)
  or replace the document, the copy being the event before the write.
\<close>

definition backup_then_write :: "filesys \<Rightarrow> filesys \<Rightarrow> bool" where
  "backup_then_write fs fs' =
     (fs' = fs
      \<or> (\<exists>c. file_text fs = Some c \<and> backup_ok fs
             \<and> backups fs' = (backup_path_of fs, c) # backups fs
             \<and> ((\<not> write_ok fs \<and> file_text fs' = Some c
                   \<and> events fs' = events fs @ [BackupCopied (backup_path_of fs) c])
                 \<or> (\<exists>c'. write_ok fs \<and> file_text fs' = Some c'
                        \<and> events fs' = events fs @ [BackupCopied (backup_path_of fs) c,
                                                     FileWritten c']))))"

section \<open>The writer: \<open>add_groups\<close>\<close>

text \<open>\<open>for i in range(1, len(parts) + 1): expanded_groups.add('`'.join(parts[:i]))\<close>.\<close>

definition prefixes_of :: "string \<Rightarrow> string list" where
  "prefixes_of group_path =
     (let parts = split_chr CHR ''`'' group_path
      in map (\<lambda>i. join ''`'' (take i parts)) [1 ..< length parts + 1])"

definition expanded_groups :: "string list \<Rightarrow> string list" where
  "expanded_groups group_paths = remdups (concat (map prefixes_of group_paths))"

text \<open>
  The loop of \<open>add_groups\<close> over \<open>sorted_groups\<close>, on the pair of the content and the
  result.
\<close>

fun add_groups_loop ::
  "string list \<Rightarrow> string \<times> add_groups_result \<Rightarrow> string \<times> add_groups_result" where
  "add_groups_loop [] st = st"
| "add_groups_loop (group_path # rest) (content, result) =
     (let old_content = content;
          c1 = ensure_group_exists group_path content;
          c2 = (if detect_tsm_format c1 = ''ascension''
                then ensure_group_tree_status_ascension group_path c1 else c1)
      in if c2 \<noteq> old_content
         then add_groups_loop rest
                (c2, result\<lparr>ag_added := ag_added result + 1,
                            groups_added := groups_added result @ [group_path]\<rparr>)
         else add_groups_loop rest (c2, result\<lparr>ag_skipped := ag_skipped result + 1\<rparr>))"

text \<open>
  \<open>add_groups\<close>. Python iterates the set \<open>expanded_groups\<close> in an order of its own;
  \<open>set_order\<close> stands for it. \<open>sorted(..., key=len)\<close> is the stable sort by length. The
  call of \<open>create_backup\<close> is outside the \<open>try\<close>, the write is inside it.
\<close>

definition add_groups ::
  "(string list \<Rightarrow> string list) \<Rightarrow> string list \<Rightarrow> bool \<Rightarrow> filesys
     \<Rightarrow> add_groups_result outcome \<times> filesys" where
  "add_groups set_order group_paths dry_run fs =
     (case read_file fs of
        Inl e \<Rightarrow>
          (Returned \<lparr>ag_added = 0, ag_skipped = 0, ag_errors = [e], groups_added = []\<rparr>, fs)
      | Inr content0 \<Rightarrow>
          (case add_groups_loop (sort_key length (set_order (expanded_groups group_paths)))
                  (content0,
                   \<lparr>ag_added = 0, ag_skipped = 0, ag_errors = [], groups_added = []\<rparr>) of
             (c, result) \<Rightarrow>
               (let content = cleanup_ui_state c
                in if \<not> dry_run then
                     (case create_backup fs of
                        (Inl ex, fs1) \<Rightarrow> (Raised ex, fs1)
                      | (Inr backup_path, fs1) \<Rightarrow>
                          (case write_file content fs1 of
                             (Inl e, fs2) \<Rightarrow>
                               (Returned (result\<lparr>ag_errors := ag_errors result @ [e]\<rparr>), fs2)
                           | (Inr u, fs2) \<Rightarrow> (Returned result, fs2)))
                   else (Returned result, fs))))"

section \<open>The writer: \<open>add_items\<close>\<close>

definition item_entry_key :: "string \<Rightarrow> string" where
  \<open>item_entry_key item_id = ''["item:'' @ item_id @ '':0:0:0:0:0:0"]''\<close>

text \<open>
  The loop over \<open>items_dict.items()\<close> (a dictionary keeps the order of insertion). The
  identifiers are Python \<open>int\<close>s, so \<open>str(item_id).strip()\<close> is \<open>str(item_id)\<close>, and the
  search \<open>\["item:ID:0:0:0:0:0:0"\]\s*=\<close> is for the literal key.
\<close>

fun add_items_loop ::
  "string \<Rightarrow> (int \<times> string) list \<Rightarrow> string list \<times> add_items_result
     \<Rightarrow> string list \<times> add_items_result" where
  "add_items_loop content [] st = st"
| "add_items_loop content ((item_id, group_path) # rest) (new_entries, result) =
     (let entry_key = item_entry_key (str_int item_id)
      in if search_assign entry_key [] content \<noteq> None
         then add_items_loop content rest (new_entries, result\<lparr>skipped := skipped result + 1\<rparr>)
         else add_items_loop content rest
                (new_entries @ [tabs 4 @ entry_key @ '' = '' @ [CHR 0x22] @ group_path @
                                [CHR 0x22] @ '',''],
                 result\<lparr>added := added result + 1\<rparr>))"

text \<open>
  The text part of \<open>add_items\<close>, between reading and writing: the result and, when there
  is something to write, the new buffer.
\<close>

definition add_items_text ::
  "(int \<times> string) list \<Rightarrow> string \<Rightarrow> add_items_result \<times> string option" where
  "add_items_text items_dict content0 =
     (if detect_tsm_format content0 = ''ascension'' then
        (let content = ensure_items_table_exists_ascension content0
         in case find_real_items_table content of
              None \<Rightarrow> (\<lparr>added = 0, skipped = 0, errors = [ItemsTableNotFound]\<rparr>, None)
            | Some items_match \<Rightarrow>
                (let insert_pos = snd items_match
                 in case add_items_loop content items_dict
                           ([], \<lparr>added = 0, skipped = 0, errors = []\<rparr>) of
                      (new_entries, result) \<Rightarrow>
                        if new_entries \<noteq> [] then
                          (let new_block = nl @ join nl new_entries;
                               c1 = splice insert_pos new_block content
                           in (result, Some (cleanup_ui_state c1)))
                        else (result, None)))
      else (\<lparr>added = 0, skipped = 0,
             errors = [UnsupportedFormat (detect_tsm_format content0)]\<rparr>, None))"


text \<open>\<open>add_items\<close>: neither the backup nor the write is inside a \<open>try\<close>.\<close>

definition add_items ::
  "(int \<times> string) list \<Rightarrow> bool \<Rightarrow> filesys \<Rightarrow> add_items_result outcome \<times> filesys" where
  "add_items items_dict dry_run fs =
     (case read_file fs of
        Inl e \<Rightarrow> (Returned \<lparr>added = 0, skipped = 0, errors = [e]\<rparr>, fs)
      | Inr content0 \<Rightarrow>
          (case add_items_text items_dict content0 of
             (result, None) \<Rightarrow> (Returned result, fs)
           | (result, Some content) \<Rightarrow>
               if \<not> dry_run then
                 (case create_backup fs of
                    (Inl ex, fs1) \<Rightarrow> (Raised ex, fs1)
                  | (Inr backup_path, fs1) \<Rightarrow>
                      (case write_file content fs1 of
                         (Inl e, fs2) \<Rightarrow> (Raised e, fs2)
                       | (Inr u, fs2) \<Rightarrow> (Returned result, fs2)))
               else (Returned result, fs)))"

section \<open>The writer: \<open>remove_items\<close>\<close>

text \<open>
  \<open>re.search(r'\["item:(\d+):', line)\<close>: the digits of group 1 at the leftmost match.
  The digit run is followed by a colon, so the greedy run is the only way to match.
\<close>

definition match_item_key_at :: "string \<Rightarrow> string option" where
  \<open>match_item_key_at s =
     (if starts_with ''["item:'' s
      then (let ds = takeWhile is_digit (drop 7 s);
                after = dropWhile is_digit (drop 7 s)
            in if ds \<noteq> [] \<and> starts_with '':'' after then Some ds else None)
      else None)\<close>

fun search_item_key :: "string \<Rightarrow> string option" where
  "search_item_key [] = None"
| "search_item_key (c # s) =
     (case match_item_key_at (c # s) of
        Some ds \<Rightarrow> Some ds
      | None \<Rightarrow> search_item_key s)"

text \<open>\<open>int(match.group(1))\<close>, when the line matches.\<close>

definition item_line_id :: "string \<Rightarrow> int option" where
  "item_line_id line = map_option int_of_digits (search_item_key line)"

record rm_state =
  rm_removed :: nat
  ids_to_remove :: "int set"
  new_lines :: "string list"

text \<open>The loop over the lines of \<open>remove_items\<close>.\<close>

fun remove_loop :: "string list \<Rightarrow> rm_state \<Rightarrow> rm_state" where
  "remove_loop [] st = st"
| "remove_loop (line # lines) st =
     (case item_line_id line of
        Some i \<Rightarrow>
          if i \<in> ids_to_remove st
          then remove_loop lines
                 (st\<lparr>rm_removed := rm_removed st + 1,
                     ids_to_remove := ids_to_remove st - {i}\<rparr>)
          else remove_loop lines (st\<lparr>new_lines := new_lines st @ [line]\<rparr>)
      | None \<Rightarrow> remove_loop lines (st\<lparr>new_lines := new_lines st @ [line]\<rparr>))"

definition remove_items_scan :: "int list \<Rightarrow> string \<Rightarrow> rm_state" where
  "remove_items_scan item_ids content =
     remove_loop (split_chr CHR 0x0A content)
       \<lparr>rm_removed = 0, ids_to_remove = set item_ids, new_lines = []\<rparr>"

definition remove_items_text ::
  "int list \<Rightarrow> string \<Rightarrow> remove_items_result \<times> string" where
  "remove_items_text item_ids content =
     (let st = remove_items_scan item_ids content
      in (\<lparr>removed = rm_removed st, not_found = card (ids_to_remove st), rm_errors = []\<rparr>,
          join nl (new_lines st)))"

text \<open>\<open>remove_items\<close>: the file is written only when a line was removed.\<close>

definition remove_items ::
  "int list \<Rightarrow> bool \<Rightarrow> filesys \<Rightarrow> remove_items_result outcome \<times> filesys" where
  "remove_items item_ids dry_run fs =
     (case read_file fs of
        Inl e \<Rightarrow> (Returned \<lparr>removed = 0, not_found = 0, rm_errors = [e]\<rparr>, fs)
      | Inr content \<Rightarrow>
          (case remove_items_text item_ids content of
             (result, new_content) \<Rightarrow>
               if \<not> dry_run \<and> removed result > 0 then
                 (case create_backup fs of
                    (Inl ex, fs1) \<Rightarrow> (Raised ex, fs1)
                  | (Inr backup_path, fs1) \<Rightarrow>
                      (case write_file new_content fs1 of
                         (Inl e, fs2) \<Rightarrow>
                           (Returned (result\<lparr>rm_errors := rm_errors result @ [e]\<rparr>), fs2)
                       | (Inr u, fs2) \<Rightarrow> (Returned result, fs2)))
               else (Returned result, fs)))"

section \<open>The writer: \<open>rename_group\<close>\<close>

text \<open>
  The text part of \<open>rename_group\<close>. The source also counts the new path after the
  substitution (\<open>new_count\<close>, \<open>new_subgroup_count\<close>) and never uses the counts.
\<close>

definition rename_group_text ::
  "string \<Rightarrow> string \<Rightarrow> string \<Rightarrow> rename_group_result \<times> string option" where
  \<open>rename_group_text old_path new_path content =
     (let old_count = count_sub (''"'' @ old_path @ ''"'') content;
          old_subgroup_count = count_sub (''"'' @ old_path @ ''`'') content
      in if old_count = 0 \<and> old_subgroup_count = 0 then
           (\<lparr>renamed = False, items_updated = 0, groups_updated = 0,
             rn_errors = [GroupNotFound old_path]\<rparr>, None)
         else
           (let c1 = replace_sub (''"'' @ old_path @ ''"'') (''"'' @ new_path @ ''"'') content;
                new_content =
                  replace_sub (''"'' @ old_path @ ''`'') (''"'' @ new_path @ ''`'') c1
            in (\<lparr>renamed = True, items_updated = old_count,
                 groups_updated = old_count + old_subgroup_count, rn_errors = []\<rparr>,
                Some new_content)))\<close>

definition rename_group ::
  "string \<Rightarrow> string \<Rightarrow> bool \<Rightarrow> filesys \<Rightarrow> rename_group_result outcome \<times> filesys" where
  "rename_group old_path new_path dry_run fs =
     (case read_file fs of
        Inl e \<Rightarrow>
          (Returned \<lparr>renamed = False, items_updated = 0, groups_updated = 0,
                     rn_errors = [e]\<rparr>, fs)
      | Inr content \<Rightarrow>
          (case rename_group_text old_path new_path content of
             (result, None) \<Rightarrow> (Returned result, fs)
           | (result, Some new_content) \<Rightarrow>
               if \<not> dry_run then
                 (case create_backup fs of
                    (Inl ex, fs1) \<Rightarrow> (Raised ex, fs1)
                  | (Inr backup_path, fs1) \<Rightarrow>
                      (case write_file new_content fs1 of
                         (Inl e, fs2) \<Rightarrow>
                           (Returned (result\<lparr>rn_errors := rn_errors result @ [e]\<rparr>), fs2)
                       | (Inr u, fs2) \<Rightarrow> (Returned result, fs2)))
               else (Returned result, fs)))"

section \<open>The writer: \<open>delete_group\<close>\<close>

text \<open>\<open>re.match(rf'\s*\["{escaped_path}("\]|`)', line)\<close>: the path is matched literally.\<close>

definition group_def_start :: "string \<Rightarrow> string \<Rightarrow> bool" where
  \<open>group_def_start group_path line =
     (let r = dropWhile is_space line
      in starts_with (''["'' @ group_path @ ''"]'') r
         \<or> starts_with (''["'' @ group_path @ ''`'') r)\<close>

text \<open>\<open>re.match(rf'\s*\["{escaped_path}`[^"]+"\]\s*=\s*\{{', line)\<close>.\<close>

definition subgroup_def_start :: "string \<Rightarrow> string \<Rightarrow> bool" where
  \<open>subgroup_def_start group_path line =
     (let r = dropWhile is_space line;
          lhs = ''["'' @ group_path @ ''`''
      in if starts_with lhs r then
           (let rest = drop (length lhs) r;
                name = takeWhile (\<lambda>c. c \<noteq> CHR 0x22) rest;
                after = dropWhile (\<lambda>c. c \<noteq> CHR 0x22) rest
            in name \<noteq> [] \<and> match_assign_at ''"]'' ''{'' after \<noteq> None)
         else False)\<close>

text \<open>\<open>line.count('{') - line.count('}')\<close>.\<close>

definition brace_delta :: "string \<Rightarrow> int" where
  "brace_delta line = int (count_list line CHR ''{'') - int (count_list line CHR ''}'')"

record dg_state =
  dg_new_lines :: "string list"
  skip_until_closed :: bool
  brace_depth :: int
  dg_deleted :: bool
  dg_subgroups_removed :: nat

text \<open>The first loop of \<open>delete_group\<close>: the group definitions.\<close>

fun delete_defs_loop :: "string \<Rightarrow> string list \<Rightarrow> dg_state \<Rightarrow> dg_state" where
  "delete_defs_loop group_path [] st = st"
| "delete_defs_loop group_path (line # lines) st =
     (if group_def_start group_path line \<and> contains ''= {'' line then
        delete_defs_loop group_path lines
          (st\<lparr>skip_until_closed := True, brace_depth := brace_delta line,
              dg_deleted := True\<rparr>)
      else if subgroup_def_start group_path line then
        delete_defs_loop group_path lines
          (st\<lparr>skip_until_closed := True, brace_depth := brace_delta line,
              dg_subgroups_removed := dg_subgroups_removed st + 1\<rparr>)
      else if skip_until_closed st then
        (let d = brace_depth st + brace_delta line
         in if d \<le> 0
            then delete_defs_loop group_path lines
                   (st\<lparr>skip_until_closed := False, brace_depth := 0\<rparr>)
            else delete_defs_loop group_path lines (st\<lparr>brace_depth := d\<rparr>))
      else delete_defs_loop group_path lines
             (st\<lparr>dg_new_lines := dg_new_lines st @ [line]\<rparr>))"

text \<open>
  \<open>re.search(rf'=\s*"{escaped_path}(`.*)?"\s*,?', line)\<close>: the pattern at the start of
  \<open>s\<close>, then anywhere. The tail \<open>\s*,?\<close> always matches.
\<close>

definition item_assign_at :: "string \<Rightarrow> string \<Rightarrow> bool" where
  \<open>item_assign_at group_path s =
     (starts_with ''='' s \<and>
      (let r = dropWhile is_space (tl s);
           lhs = ''"'' @ group_path
       in starts_with lhs r \<and>
          (let rest = drop (length lhs) r
           in starts_with ''"'' rest
              \<or> (starts_with ''`'' rest
                  \<and> CHR 0x22 \<in> set (takeWhile (\<lambda>c. c \<noteq> CHR 0x0A) (tl rest))))))\<close>

fun item_assign_search :: "string \<Rightarrow> string \<Rightarrow> bool" where
  "item_assign_search group_path [] = False"
| "item_assign_search group_path (c # s) =
     (item_assign_at group_path (c # s) \<or> item_assign_search group_path s)"

record ip_state =
  ip_new_lines :: "string list"
  items_found :: nat
  ip_items_removed :: nat

text \<open>The second loop: the item assignments.\<close>

fun delete_items_loop :: "string \<Rightarrow> bool \<Rightarrow> string list \<Rightarrow> ip_state \<Rightarrow> ip_state" where
  "delete_items_loop group_path delete_items [] st = st"
| "delete_items_loop group_path delete_items (line # lines) st =
     (if item_assign_search group_path line then
        (if delete_items
         then delete_items_loop group_path delete_items lines
                (st\<lparr>items_found := items_found st + 1,
                    ip_items_removed := ip_items_removed st + 1\<rparr>)
         else delete_items_loop group_path delete_items lines
                (st\<lparr>items_found := items_found st + 1,
                    ip_new_lines := ip_new_lines st @ [line]\<rparr>))
      else delete_items_loop group_path delete_items lines
             (st\<lparr>ip_new_lines := ip_new_lines st @ [line]\<rparr>))"

text \<open>The third loop: the lines that refer to the group and set a flag.\<close>

definition sets_flag :: "string \<Rightarrow> bool" where
  "sets_flag line = (contains ''= true'' line \<or> contains ''= false'' line)"

definition ui_ref_line :: "string \<Rightarrow> string \<Rightarrow> bool" where
  \<open>ui_ref_line group_path line =
     (if (contains (''"'' @ group_path @ ''"'') line \<or> contains (''"'' @ group_path @ ''`'') line)
         \<and> sets_flag line
      then True
      else (contains (group_path @ ''"]'') line \<or> contains (group_path @ ''`'') line)
           \<and> sets_flag line)\<close>

fun delete_ui_loop :: "string \<Rightarrow> string list \<Rightarrow> string list \<times> nat \<Rightarrow> string list \<times> nat" where
  "delete_ui_loop group_path [] st = st"
| "delete_ui_loop group_path (line # lines) (kept, ui_refs) =
     (if ui_ref_line group_path line
      then delete_ui_loop group_path lines (kept, ui_refs + 1)
      else delete_ui_loop group_path lines (kept @ [line], ui_refs))"

lemma replace_sub_shorter:
  "p \<noteq> [] \<Longrightarrow> length r < length p \<Longrightarrow> contains p s
     \<Longrightarrow> length (replace_sub p r s) < length s"
proof (induction p r s rule: replace_sub.induct)
  case (1 p r)
  then show ?case by simp
next
  case (2 p r c s)
  have le: "\<And>t. length (replace_sub p r t) \<le> length t"
  proof -
    fix t show "length (replace_sub p r t) \<le> length t"
      using "2.prems"(1,2)
    proof (induction p r t rule: replace_sub.induct)
      case (1 p r)
      then show ?case by simp
    next
      case (2 p r c s)
      show ?case
      proof (cases "starts_with p (c # s)")
        case True
        have "length (replace_sub p r (drop (length p - 1) s)) \<le> length (drop (length p - 1) s)"
          using 2 True by simp
        moreover have "length p \<le> Suc (length s)"
          using True
        proof (induction p "c # s" arbitrary: c s rule: starts_with.induct)
          case (1 s)
          then show ?case by simp
        next
          case (3 a p c s)
          then show ?case by (cases s; cases p) auto
        qed
        ultimately show ?thesis using True 2 by simp
      next
        case False
        then show ?thesis using 2 by simp
      qed
    qed
  qed
  show ?case
  proof (cases "starts_with p (c # s)")
    case True
    have "length p \<le> Suc (length s)"
      using True
    proof (induction p "c # s" arbitrary: c s rule: starts_with.induct)
      case (1 s)
      then show ?case by simp
    next
      case (3 a p c s)
      then show ?case by (cases s; cases p) auto
    qed
    moreover have "length (replace_sub p r (drop (length p - 1) s)) \<le> length s - (length p - 1)"
      using le [of "drop (length p - 1) s"] by simp
    ultimately show ?thesis using True "2.prems" by simp
  next
    case False
    then show ?thesis using 2 by simp
  qed
qed

text \<open>\<open>while '\n\n\n' in new_content: new_content = new_content.replace('\n\n\n', '\n\n')\<close>.\<close>

function collapse_blank_lines :: "string \<Rightarrow> string" where
  "collapse_blank_lines c =
     (if contains (nl @ nl @ nl) c
      then collapse_blank_lines (replace_sub (nl @ nl @ nl) (nl @ nl) c)
      else c)"
  by pat_completeness auto
termination
  by (relation "measure length") (auto simp: nl_def intro!: replace_sub_shorter)

text \<open>
  \<open>re.sub(r'(\{\s*)\n\n+(\s*T)', r'\1\n\2', text)\<close> for \<open>T\<close> one of \<open>\}\<close> and \<open>\[\<close>. A match
  starts at an opening brace, runs over the white space after it and ends with \<open>T\<close>; the
  greedy first group leaves the last pair of adjacent newlines of the run to \<open>\n\n+\<close>,
  and one newline of the pair is dropped. The search resumes after \<open>T\<close>.
\<close>

function sub_blank_after_brace :: "char \<Rightarrow> string \<Rightarrow> string" where
  "sub_blank_after_brace t [] = []"
| "sub_blank_after_brace t (c # s) =
     (if c = CHR ''{'' \<and> starts_with [t] (dropWhile is_space s)
         \<and> rfind_sub (nl @ nl) (takeWhile is_space s) \<noteq> None
      then (let w = takeWhile is_space s;
                k = the (rfind_sub (nl @ nl) w)
            in c # take k w @ nl @ drop (k + 2) w @ [t] @
               sub_blank_after_brace t (tl (dropWhile is_space s)))
      else c # sub_blank_after_brace t s)"
  by pat_completeness auto
termination
  by (relation "measure (\<lambda>(t, s). length s)")
     (auto simp: less_Suc_eq_le intro: le_trans [OF _ length_dropWhile_le] diff_le_self)

text \<open>The text part of \<open>delete_group\<close>.\<close>

definition delete_group_text ::
  "string \<Rightarrow> bool \<Rightarrow> string \<Rightarrow> delete_group_result \<times> string option" where
  "delete_group_text group_path delete_items content =
     (let st1 = delete_defs_loop group_path (split_chr CHR 0x0A content)
                  \<lparr>dg_new_lines = [], skip_until_closed = False, brace_depth = 0,
                   dg_deleted = False, dg_subgroups_removed = 0\<rparr>;
          content1 = join nl (dg_new_lines st1);
          st2 = delete_items_loop group_path delete_items (split_chr CHR 0x0A content1)
                  \<lparr>ip_new_lines = [], items_found = 0, ip_items_removed = 0\<rparr>;
          content2 = join nl (ip_new_lines st2);
          st3 = delete_ui_loop group_path (split_chr CHR 0x0A content2) ([], 0);
          content3 = join nl (fst st3);
          content4 = collapse_blank_lines content3;
          content5 = sub_blank_after_brace CHR ''}'' content4;
          new_content = sub_blank_after_brace CHR ''['' content5;
          result = \<lparr>deleted = dg_deleted st1, items_removed = ip_items_removed st2,
                    subgroups_removed = dg_subgroups_removed st1, dg_errors = [],
                    ui_refs_removed = Some (snd st3)\<rparr>
      in if \<not> dg_deleted st1 \<and> dg_subgroups_removed st1 = 0 \<and> items_found st2 = 0
         then (result\<lparr>dg_errors := [GroupNotFound group_path]\<rparr>, None)
         else (result, Some new_content))"

definition delete_group ::
  "string \<Rightarrow> bool \<Rightarrow> bool \<Rightarrow> filesys \<Rightarrow> delete_group_result outcome \<times> filesys" where
  "delete_group group_path delete_items dry_run fs =
     (case read_file fs of
        Inl e \<Rightarrow>
          (Returned \<lparr>deleted = False, items_removed = 0, subgroups_removed = 0,
                     dg_errors = [e], ui_refs_removed = None\<rparr>, fs)
      | Inr content \<Rightarrow>
          (case delete_group_text group_path delete_items content of
             (result, None) \<Rightarrow> (Returned result, fs)
           | (result, Some new_content) \<Rightarrow>
               if \<not> dry_run then
                 (case create_backup fs of
                    (Inl ex, fs1) \<Rightarrow> (Raised ex, fs1)
                  | (Inr backup_path, fs1) \<Rightarrow>
                      (case write_file new_content fs1 of
                         (Inl e, fs2) \<Rightarrow>
                           (Returned (result\<lparr>dg_errors := dg_errors result @ [e]\<rparr>), fs2)
                       | (Inr u, fs2) \<Rightarrow> (Returned result, fs2)))
               else (Returned result, fs)))"

section \<open>The parser\<close>

text \<open>\<open>TSMLuaParser.get_item_id\<close>: \<open>re.match(r'i:(\d+)', key)\<close>, then
  \<open>re.match(r'item:(\d+)', key)\<close>.\<close>

definition match_digits_after :: "string \<Rightarrow> string \<Rightarrow> int option" where
  "match_digits_after pre s =
     (if starts_with pre s \<and> takeWhile is_digit (drop (length pre) s) \<noteq> []
      then Some (int_of_digits (takeWhile is_digit (drop (length pre) s)))
      else None)"

definition get_item_id :: "string \<Rightarrow> int option" where
  "get_item_id item_key =
     (case match_digits_after ''i:'' item_key of
        Some i \<Rightarrow> Some i
      | None \<Rightarrow> match_digits_after ''item:'' item_key)"

text \<open>
  \<open>TSMLuaParser.parse_groups\<close>, the extraction of the groups section: the offsets
  \<open>(brace_start + 1, pos)\<close> and the final \<open>brace_depth\<close> of the walk. The section is
  \<open>content[brace_start + 1 : pos - 1]\<close>, whatever the final depth.
\<close>

definition groups_section_walk :: "string \<Rightarrow> (nat \<times> nat \<times> nat) option" where
  \<open>groups_section_walk content =
     (if contains ''AscensionTSMDB'' content then
        (case find_sub ''["groups"] = {'' content of
           None \<Rightarrow> None
         | Some groups_start \<Rightarrow>
             (case find_sub ''{'' (drop groups_start content) of
                None \<Rightarrow> None
              | Some k \<Rightarrow>
                  (let brace_start = groups_start + k
                   in case walk_from content (brace_start + 1) of
                        (pos, depth) \<Rightarrow> Some (brace_start + 1, pos, depth))))
      else None)\<close>

definition groups_content :: "string \<Rightarrow> string option" where
  "groups_content content =
     map_option (\<lambda>(start, pos, depth). slice start (pos - 1) content)
       (groups_section_walk content)"

section \<open>Properties of the string primitives\<close>

lemma split_chr_nonempty: "split_chr d s \<noteq> []"
  by (induction s) (auto split: list.splits)

lemma split_chr_no_sep: "d \<notin> set s \<Longrightarrow> split_chr d s = [s]"
  by (induction s) auto

lemma split_chr_append_sep:
  "d \<notin> set x \<Longrightarrow> split_chr d (x @ d # rest) = x # split_chr d rest"
  by (induction x) auto

lemma split_join_roundtrip:
  "segs \<noteq> [] \<Longrightarrow> \<forall>s \<in> set segs. d \<notin> set s \<Longrightarrow> split_chr d (join [d] segs) = segs"
proof (induction "[d]" segs rule: join.induct)
  case 1
  then show ?case by simp
next
  case (2 x)
  then show ?case by (simp add: split_chr_no_sep)
next
  case (3 x y ys)
  then show ?case by (simp add: split_chr_append_sep)
qed

lemma gts_loop_map:
  "gts_loop parts is acc = acc @ map (\<lambda>i. join ''`'' (take (i + 1) parts)) is"
  by (induction "is" arbitrary: acc) auto

lemma gts_path_parts_split:
  "gts_path_parts p =
     ''1'' # map (\<lambda>i. join ''`'' (take (i + 1) (split_chr CHR ''`'' p)))
               [0 ..< length (split_chr CHR ''`'' p)]"
  by (simp add: gts_path_parts_def gts_loop_map Let_def)

section \<open>Properties of \<open>remove_items\<close>\<close>

lemma remove_loop_ids:
  "ids_to_remove (remove_loop lines st) =
     ids_to_remove st - {i. \<exists>l \<in> set lines. item_line_id l = Some i}"
proof (induction lines arbitrary: st)
  case Nil
  then show ?case by simp
next
  case (Cons l ls)
  show ?case
  proof (cases "item_line_id l")
    case None
    then show ?thesis using Cons by auto
  next
    case (Some i)
    then show ?thesis using Cons by (cases "i \<in> ids_to_remove st") auto
  qed
qed

lemma remove_loop_count:
  "finite (ids_to_remove st) \<Longrightarrow>
   rm_removed (remove_loop lines st) + card (ids_to_remove (remove_loop lines st))
     = rm_removed st + card (ids_to_remove st)"
proof (induction lines arbitrary: st)
  case Nil
  then show ?case by simp
next
  case (Cons l ls)
  show ?case
  proof (cases "item_line_id l")
    case None
    then show ?thesis using Cons by simp
  next
    case (Some i)
    show ?thesis
    proof (cases "i \<in> ids_to_remove st")
      case True
      have "card (ids_to_remove st) > 0"
        using True Cons.prems by (auto simp: card_gt_0_iff)
      then show ?thesis
        using Some True Cons.prems
          Cons.IH [of "st\<lparr>rm_removed := rm_removed st + 1,
                          ids_to_remove := ids_to_remove st - {i}\<rparr>"]
        by (simp add: card_Diff_singleton)
    next
      case False
      then show ?thesis using Some Cons by simp
    qed
  qed
qed

lemma remove_loop_lines_id:
  "filter (\<lambda>l. item_line_id l = Some i) (new_lines (remove_loop lines st)) =
     filter (\<lambda>l. item_line_id l = Some i) (new_lines st) @
       (if i \<in> ids_to_remove st then tl (filter (\<lambda>l. item_line_id l = Some i) lines)
        else filter (\<lambda>l. item_line_id l = Some i) lines)"
proof (induction lines arbitrary: st)
  case Nil
  then show ?case by simp
next
  case (Cons l ls)
  show ?case
  proof (cases "item_line_id l")
    case None
    then show ?thesis using Cons by simp
  next
    case (Some j)
    then show ?thesis using Cons by (cases "j \<in> ids_to_remove st") auto
  qed
qed

lemma remove_loop_lines_none:
  "filter (\<lambda>l. item_line_id l = None) (new_lines (remove_loop lines st)) =
     filter (\<lambda>l. item_line_id l = None) (new_lines st) @
       filter (\<lambda>l. item_line_id l = None) lines"
proof (induction lines arbitrary: st)
  case Nil
  then show ?case by simp
next
  case (Cons l ls)
  show ?case
  proof (cases "item_line_id l")
    case None
    then show ?thesis using Cons by simp
  next
    case (Some j)
    then show ?thesis using Cons by (cases "j \<in> ids_to_remove st") auto
  qed
qed

lemma remove_loop_length:
  "length (new_lines (remove_loop lines st)) + rm_removed (remove_loop lines st)
     = length (new_lines st) + rm_removed st + length lines"
proof (induction lines arbitrary: st)
  case Nil
  then show ?case by simp
next
  case (Cons l ls)
  show ?case
  proof (cases "item_line_id l")
    case None
    then show ?thesis using Cons by simp
  next
    case (Some j)
    then show ?thesis using Cons by (cases "j \<in> ids_to_remove st") auto
  qed
qed

lemma search_item_key_none:
  \<open>\<not> contains ''["item:'' s \<Longrightarrow> search_item_key s = None\<close>
  by (induction s) (auto simp: match_item_key_at_def simp del: starts_with.simps)

lemma takeWhile_digits_colon:
  "list_all is_digit ds \<Longrightarrow> takeWhile is_digit (ds @ CHR '':'' # rest) = ds"
  by (induction ds) (auto simp: is_digit_def)

lemma dropWhile_digits_colon:
  "list_all is_digit ds \<Longrightarrow> dropWhile is_digit (ds @ CHR '':'' # rest) = CHR '':'' # rest"
  by (induction ds) (auto simp: is_digit_def)

lemma search_item_key_legacy:
  assumes "list_all is_space ws" and "ds \<noteq> []" and "list_all is_digit ds"
  shows \<open>search_item_key (ws @ ''["item:'' @ ds @ '':'' @ rest) = Some ds\<close>
  using assms(1)
proof (induction ws)
  case Nil
  show ?case
    using assms(2,3)
    by (simp add: match_item_key_at_def takeWhile_digits_colon dropWhile_digits_colon)
next
  case (Cons c ws)
  have "c \<noteq> CHR ''[''" using Cons.prems by (auto simp: is_space_def)
  then have "match_item_key_at (c # ws @ ''[\"item:'' @ ds @ '':'' @ rest) = None"
    by (simp add: match_item_key_at_def)
  then show ?case using Cons by simp
qed

lemma get_item_id_legacy:
  assumes "ds \<noteq> []" and "list_all is_digit ds"
  shows "get_item_id (''item:'' @ ds @ '':'' @ rest) = Some (int_of_digits ds)"
  using assms
  by (simp add: get_item_id_def match_digits_after_def takeWhile_digits_colon)

section \<open>Properties of the brace walk and of the matchers\<close>

lemma starts_with_append: "starts_with p s \<Longrightarrow> \<exists>t. s = p @ t"
  by (induction p s rule: starts_with.induct) auto

lemma starts_with_iff: "starts_with p s = (\<exists>t. s = p @ t)"
proof
  assume "starts_with p s" then show "\<exists>t. s = p @ t" by (rule starts_with_append)
next
  assume "\<exists>t. s = p @ t"
  then obtain t where "s = p @ t" by blast
  then show "starts_with p s" by (induction p arbitrary: s) auto
qed

lemma brace_walk_stopped [simp]: "brace_walk s pos 0 = (pos, 0)"
  by (cases s) auto

lemma brace_walk_zero:
  "brace_walk s pos n = (p, 0) \<Longrightarrow> 0 < n \<Longrightarrow>
     \<exists>k. p = pos + Suc k \<and> k < length s \<and> s ! k = CHR ''}''
        \<and> count_list (take k s) CHR ''{'' + n = Suc (count_list (take k s) CHR ''}'')
        \<and> (\<forall>j \<le> k. count_list (take j s) CHR ''}'' < count_list (take j s) CHR ''{'' + n)"
proof (induction s pos n arbitrary: p rule: brace_walk.induct)
  case (1 search_pos brace_count)
  then show ?case by simp
next
  case (2 c s search_pos brace_count)
  let ?n' = "if c = CHR ''{'' then brace_count + 1
             else if c = CHR ''}'' then brace_count - 1 else brace_count"
  have w: "brace_walk s (search_pos + 1) ?n' = (p, 0)"
    using "2.prems" by simp
  show ?case
  proof (cases "?n' = 0")
    case True
    then have c: "c = CHR ''}''" and b: "brace_count = 1"
      using "2.prems"(2) by (auto split: if_splits)
    have "p = search_pos + 1" using w True by simp
    then show ?thesis using c b by (intro exI [of _ 0]) simp
  next
    case False
    then have pos: "0 < ?n'" by simp
    from "2.IH" [OF _ w pos] "2.prems"(2)
    obtain k where k: "p = search_pos + 1 + Suc k" "k < length s" "s ! k = CHR ''}''"
        "count_list (take k s) CHR ''{'' + ?n' = Suc (count_list (take k s) CHR ''}'')"
        "\<forall>j \<le> k. count_list (take j s) CHR ''}'' < count_list (take j s) CHR ''{'' + ?n'"
      by auto
    have pre: "\<forall>j \<le> Suc k. count_list (take j (c # s)) CHR ''}''
                 < count_list (take j (c # s)) CHR ''{'' + brace_count"
    proof (intro allI impI)
      fix j assume j: "j \<le> Suc k"
      show "count_list (take j (c # s)) CHR ''}''
              < count_list (take j (c # s)) CHR ''{'' + brace_count"
      proof (cases j)
        case 0
        then show ?thesis using "2.prems"(2) by simp
      next
        case (Suc j')
        then have "j' \<le> k" using j by simp
        then have "count_list (take j' s) CHR ''}'' < count_list (take j' s) CHR ''{'' + ?n'"
          using k(5) by blast
        then show ?thesis using Suc pos by (auto split: if_splits)
      qed
    qed
    show ?thesis
      using k(1-4) pos pre
      by (intro exI [of _ "Suc k"]) (auto split: if_splits)
  qed
qed

lemma brace_walk_nonzero:
  "brace_walk s pos n = (p, m) \<Longrightarrow> 0 < m \<Longrightarrow> p = pos + length s"
  by (induction s pos n arbitrary: p m rule: brace_walk.induct) (auto split: if_splits)


lemma walk_from_zero:
  assumes "walk_from content e = (p, 0)"
  shows "e < p \<and> p \<le> length content \<and> content ! (p - 1) = CHR ''}''
         \<and> count_list (slice e (p - 1) content) CHR ''{''
             = count_list (slice e (p - 1) content) CHR ''}''
         \<and> (\<forall>j \<le> p - 1 - e. count_list (slice e (e + j) content) CHR ''}''
                \<le> count_list (slice e (e + j) content) CHR ''{'')"
proof -
  have w: "brace_walk (drop e content) e 1 = (p, 0)"
    using assms unfolding walk_from_def .
  have one: "0 < (1::nat)" by simp
  from brace_walk_zero [OF w one]
  obtain k where k: "p = e + Suc k" "k < length (drop e content)"
      "drop e content ! k = CHR ''}''"
      "count_list (take k (drop e content)) CHR ''{'' + 1
         = Suc (count_list (take k (drop e content)) CHR ''}'')"
      "\<forall>j \<le> k. count_list (take j (drop e content)) CHR ''}''
         < count_list (take j (drop e content)) CHR ''{'' + 1"
    by blast
  have lt: "e + k < length content" using k(2) by simp
  have p1: "p - 1 = e + k" using k(1) by simp
  have sl: "slice e (p - 1) content = take k (drop e content)"
    unfolding p1 slice_def by simp
  have nth: "content ! (p - 1) = CHR ''}''"
  proof -
    have "e \<le> length content" using lt by simp
    then have "drop e content ! k = content ! (e + k)" by (rule nth_drop)
    then show ?thesis unfolding p1 using k(3) by simp
  qed
  have pre: "\<forall>j \<le> p - 1 - e. count_list (slice e (e + j) content) CHR ''}''
                \<le> count_list (slice e (e + j) content) CHR ''{''"
  proof (intro allI impI)
    fix j assume "j \<le> p - 1 - e"
    then have "j \<le> k" unfolding p1 by simp
    then have "count_list (take j (drop e content)) CHR ''}''
                 < count_list (take j (drop e content)) CHR ''{'' + 1"
      using k(5) by blast
    then show "count_list (slice e (e + j) content) CHR ''}''
                \<le> count_list (slice e (e + j) content) CHR ''{''"
      unfolding slice_def by simp
  qed
  have "e < p" using k(1) by simp
  moreover have "p \<le> length content" using k(1) lt by simp
  moreover have "count_list (slice e (p - 1) content) CHR ''{''
             = count_list (slice e (p - 1) content) CHR ''}''"
    unfolding sl using k(4) by simp
  ultimately show ?thesis using nth pre by blast
qed

lemma walk_from_nonzero:
  assumes "walk_from content e = (p, n)" "0 < n" "e \<le> length content"
  shows "p = length content"
proof -
  have w: "brace_walk (drop e content) e 1 = (p, n)"
    using assms(1) unfolding walk_from_def .
  from brace_walk_nonzero [OF w assms(2)] have "p = e + length (drop e content)" .
  then show ?thesis using assms(3) by simp
qed

lemma find_real_groups_loop_some:
  "find_real_groups_loop content ms = Some (m, p) \<Longrightarrow>
     m \<in> set ms \<and> walk_from content (snd m) = (p, 0)
     \<and> \<not> inside_group_tree_status content (fst m)
     \<and> \<not> has_boolean_flags (slice (snd m) (p - 1) content)"
proof (induction ms)
  case Nil
  then show ?case by simp
next
  case (Cons a ms)
  then show ?case
    by (auto simp: Let_def split: if_splits prod.splits)
qed

lemma match_assign_at_bounds:
  assumes "match_assign_at lhs rhs s = Some n"
  shows "0 < n \<and> n \<le> length s"
proof -
  from assms have sw: "starts_with lhs s"
    by (auto simp: match_assign_at_def split: if_splits)
  then obtain r1 where s: "s = lhs @ r1" using starts_with_append by blast
  from assms sw have eq: "starts_with ''='' (dropWhile is_space r1)"
    and r: "starts_with rhs (dropWhile is_space (tl (dropWhile is_space r1)))"
    and n: "n = length lhs + length (takeWhile is_space r1) + 1
                + length (takeWhile is_space (tl (dropWhile is_space r1))) + length rhs"
    unfolding s by (auto simp: match_assign_at_def Let_def split: if_splits)
  obtain r2 where r2: "dropWhile is_space r1 = CHR ''='' # r2"
    using eq by (cases "dropWhile is_space r1") auto
  obtain r3 where r3: "dropWhile is_space r2 = rhs @ r3"
    using r r2 starts_with_append [of rhs "dropWhile is_space r2"] by auto
  have "length (takeWhile is_space r1 @ dropWhile is_space r1) = length r1"
    by (simp only: takeWhile_dropWhile_id)
  then have l1: "length r1 = length (takeWhile is_space r1) + Suc (length r2)"
    using r2 by simp
  have "length (takeWhile is_space r2 @ dropWhile is_space r2) = length r2"
    by (simp only: takeWhile_dropWhile_id)
  then have l2: "length r2 = length (takeWhile is_space r2) + length rhs + length r3"
    using r3 by simp
  show ?thesis using n l1 l2 r2 unfolding s by simp
qed

lemma finditer_from_bounds:
  "(a, b) \<in> set (finditer_from lhs rhs pos s) \<Longrightarrow>
     pos \<le> a \<and> a < b \<and> b \<le> pos + length s
     \<and> match_assign_at lhs rhs (drop (a - pos) s) = Some (b - a)"
proof (induction lhs rhs pos s rule: finditer_from.induct)
  case (1 lhs rhs pos)
  then show ?case by simp
next
  case (2 lhs rhs pos c s)
  show ?case
  proof (cases "match_assign_at lhs rhs (c # s)")
    case None
    with 2 have "pos + 1 \<le> a \<and> a < b \<and> b \<le> pos + 1 + length s
        \<and> match_assign_at lhs rhs (drop (a - (pos + 1)) s) = Some (b - a)"
      by simp
    moreover then have "drop (a - pos) (c # s) = drop (a - (pos + 1)) s"
    proof -
      assume h: "pos + 1 \<le> a \<and> a < b \<and> b \<le> pos + 1 + length s
        \<and> match_assign_at lhs rhs (drop (a - (pos + 1)) s) = Some (b - a)"
      then have "a - pos = Suc (a - (pos + 1))" by linarith
      then show ?thesis by simp
    qed
    ultimately show ?thesis by simp
  next
    case (Some n)
    have nb: "0 < n" "n \<le> Suc (length s)"
      using match_assign_at_bounds [OF Some] by auto
    show ?thesis
    proof (cases "(a, b) = (pos, pos + n)")
      case True
      then show ?thesis using Some nb by simp
    next
      case False
      have mem: "(a, b) \<in> set (finditer_from lhs rhs (pos + n) (drop (n - 1) s))"
        using "2.prems" Some False by auto
      have ih: "pos + n \<le> a \<and> a < b
          \<and> b \<le> pos + n + length (drop (n - 1) s)
          \<and> match_assign_at lhs rhs (drop (a - (pos + n)) (drop (n - 1) s)) = Some (b - a)"
        using "2.IH"(2) [OF Some mem] .
      have "drop (a - (pos + n)) (drop (n - 1) s) = drop (a - pos) (c # s)"
      proof -
        have "a - pos = Suc (a - (pos + n) + (n - 1))" using ih nb by linarith
        then show ?thesis by (simp add: add.commute)
      qed
      then show ?thesis using ih nb by auto
    qed
  qed
qed

section \<open>Properties of the file operations\<close>

lemma io_shell:
  assumes "read_file fs = Inr content"
  shows "backup_then_write fs
           (snd (case create_backup fs of
                   (Inl ex, fs1) \<Rightarrow> (a ex, fs1)
                 | (Inr bp, fs1) \<Rightarrow>
                     (case write_file new fs1 of
                        (Inl e, fs2) \<Rightarrow> (b e, fs2)
                      | (Inr u, fs2) \<Rightarrow> (c, fs2))))"
  using assms
  by (auto simp: read_file_def create_backup_def write_file_def backup_then_write_def
        Let_def split: option.splits if_splits)

lemma add_groups_io: "backup_then_write fs (snd (add_groups so gps dry fs))"
  unfolding add_groups_def
  by (auto simp: Let_def backup_then_write_def [of fs fs] io_shell
        split: sum.splits prod.splits)

lemma add_items_io: "backup_then_write fs (snd (add_items items dry fs))"
  unfolding add_items_def
  by (auto simp: Let_def backup_then_write_def [of fs fs] io_shell
        split: sum.splits prod.splits option.splits)

lemma remove_items_io: "backup_then_write fs (snd (remove_items ids dry fs))"
  unfolding remove_items_def
  by (auto simp: Let_def backup_then_write_def [of fs fs] io_shell
        split: sum.splits prod.splits option.splits)

lemma rename_group_io: "backup_then_write fs (snd (rename_group old new dry fs))"
  unfolding rename_group_def
  by (auto simp: Let_def backup_then_write_def [of fs fs] io_shell
        split: sum.splits prod.splits option.splits)

lemma delete_group_io: "backup_then_write fs (snd (delete_group gp di dry fs))"
  unfolding delete_group_def
  by (auto simp: Let_def backup_then_write_def [of fs fs] io_shell
        split: sum.splits prod.splits option.splits)

lemma add_groups_untouched:
  "\<not> backup_ok fs \<or> dry \<Longrightarrow> snd (add_groups so gps dry fs) = fs"
  unfolding add_groups_def
  by (auto simp: Let_def read_file_def create_backup_def write_file_def
        split: sum.splits prod.splits option.splits if_splits)

lemma add_items_untouched:
  "\<not> backup_ok fs \<or> dry \<Longrightarrow> snd (add_items items dry fs) = fs"
  unfolding add_items_def
  by (auto simp: Let_def read_file_def create_backup_def write_file_def
        split: sum.splits prod.splits option.splits if_splits)

lemma remove_items_untouched:
  "\<not> backup_ok fs \<or> dry \<Longrightarrow> snd (remove_items ids dry fs) = fs"
  unfolding remove_items_def
  by (auto simp: Let_def read_file_def create_backup_def write_file_def
        split: sum.splits prod.splits option.splits if_splits)

lemma rename_group_untouched:
  "\<not> backup_ok fs \<or> dry \<Longrightarrow> snd (rename_group old new dry fs) = fs"
  unfolding rename_group_def
  by (auto simp: Let_def read_file_def create_backup_def write_file_def
        split: sum.splits prod.splits option.splits if_splits)

lemma delete_group_untouched:
  "\<not> backup_ok fs \<or> dry \<Longrightarrow> snd (delete_group gp di dry fs) = fs"
  unfolding delete_group_def
  by (auto simp: Let_def read_file_def create_backup_def write_file_def
        split: sum.splits prod.splits option.splits if_splits)

section \<open>Properties of the items-table locator and of \<open>add_items\<close>\<close>

lemma find_real_items_loop_some:
  "find_real_items_loop content ms = Some m \<Longrightarrow>
     \<exists>pre post. ms = pre @ m # post \<and> (\<forall>x \<in> set pre. table_rejected content x)
       \<and> \<not> table_rejected content m"
proof (induction ms)
  case Nil
  then show ?case by simp
next
  case (Cons a ms)
  show ?case
  proof (cases "table_rejected content a")
    case True
    then have "find_real_items_loop content ms = Some m"
      using Cons.prems
      by (auto simp: table_rejected_def Let_def split: if_splits prod.splits)
    from Cons.IH [OF this] obtain pre post where
      "ms = pre @ m # post" "\<forall>x \<in> set pre. table_rejected content x"
      "\<not> table_rejected content m"
      by blast
    then have "a # ms = (a # pre) @ m # post \<and> (\<forall>x \<in> set (a # pre). table_rejected content x)
                 \<and> \<not> table_rejected content m"
      using True by simp
    then show ?thesis by blast
  next
    case False
    then have "m = a"
      using Cons.prems
      by (auto simp: table_rejected_def Let_def split: if_splits prod.splits)
    then have "a # ms = [] @ m # ms \<and> (\<forall>x \<in> set []. table_rejected content x)
                 \<and> \<not> table_rejected content m"
      using False by simp
    then show ?thesis by blast
  qed
qed

lemma find_real_items_loop_valid:
  "find_real_items_loop content ms = Some m \<Longrightarrow> valid_items_exists content ms"
proof (induction ms)
  case Nil
  then show ?case by simp
next
  case (Cons a ms)
  then show ?case
    by (cases "inside_group_tree_status content (fst a)") auto
qed

lemma ensure_items_identity:
  "find_real_items_table content = Some m \<Longrightarrow>
     ensure_items_table_exists_ascension content = content"
  using find_real_items_loop_valid [of content "finditer_table ''items'' content" m]
  by (simp add: find_real_items_table_def ensure_items_table_exists_ascension_def)

lemma match_assign_at_brace:
  assumes "match_assign_at lhs ''{'' s = Some n"
  shows "s ! (n - 1) = CHR ''{''"
proof -
  from assms have sw: "starts_with lhs s"
    by (auto simp: match_assign_at_def split: if_splits)
  then obtain r1 where s: "s = lhs @ r1" using starts_with_append by blast
  from assms sw have eq: "starts_with ''='' (dropWhile is_space r1)"
    and r: "starts_with ''{'' (dropWhile is_space (tl (dropWhile is_space r1)))"
    and n: "n = length lhs + length (takeWhile is_space r1) + 1
                + length (takeWhile is_space (tl (dropWhile is_space r1))) + 1"
    unfolding s by (auto simp: match_assign_at_def Let_def split: if_splits)
  obtain r2 where r2: "dropWhile is_space r1 = CHR ''='' # r2"
    using eq by (cases "dropWhile is_space r1") auto
  obtain r3 where r3: "dropWhile is_space r2 = CHR ''{'' # r3"
    using r r2 by (cases "dropWhile is_space r2") auto
  have e1: "r1 = takeWhile is_space r1 @ CHR ''='' # r2"
    using r2 takeWhile_dropWhile_id [of is_space r1] by simp
  have e2: "r2 = takeWhile is_space r2 @ CHR ''{'' # r3"
    using r3 takeWhile_dropWhile_id [of is_space r2] by simp
  define w1 where "w1 = takeWhile is_space r1"
  define w2 where "w2 = takeWhile is_space r2"
  have full: "s = (lhs @ w1 @ CHR ''='' # w2) @ CHR ''{'' # r3"
    using s e1 e2 unfolding w1_def w2_def by simp
  have n': "n - 1 = length (lhs @ w1 @ CHR ''='' # w2)"
    using n r2 unfolding w1_def w2_def by simp
  show ?thesis
    unfolding n' by (subst full) (simp only: nth_append_length)
qed

lemma finditer_table_match:
  assumes "(s, e) \<in> set (finditer_table name content)"
  shows "s < e \<and> e \<le> length content \<and> content ! (e - 1) = CHR ''{''
         \<and> match_assign_at (quoted_key name) ''{'' (drop s content) = Some (e - s)"
proof -
  from finditer_from_bounds [of s e "quoted_key name" "''{''" 0 content] assms
  have b: "s < e" "e \<le> length content"
    "match_assign_at (quoted_key name) ''{'' (drop s content) = Some (e - s)"
    by (auto simp: finditer_table_def)
  have "drop s content ! (e - s - 1) = CHR ''{''"
    using match_assign_at_brace [OF b(3)] .
  moreover have "s \<le> length content" using b by simp
  ultimately have "content ! (s + (e - s - 1)) = CHR ''{''" by simp
  moreover have "s + (e - s - 1) = e - 1" using b(1) by simp
  ultimately show ?thesis using b by simp
qed


lemma add_items_text_located:
  assumes "detect_tsm_format content = ''ascension''"
    and "find_real_items_table content = Some (s, e)"
  shows "add_items_text items_dict content =
           (case add_items_loop content items_dict
                   ([], \<lparr>added = 0, skipped = 0, errors = []\<rparr>) of
              (new_entries, result) \<Rightarrow>
                if new_entries \<noteq> []
                then (result,
                      Some (cleanup_ui_state (splice e (nl @ join nl new_entries) content)))
                else (result, None))"
  using assms ensure_items_identity [OF assms(2)]
  by (simp add: add_items_text_def Let_def split: prod.splits)

section \<open>Properties of substring counting and replacement\<close>

lemma starts_with_self_append [simp]: "starts_with p (p @ t)"
  by (induction p) auto

lemma starts_with_append_same: "starts_with (p @ x) (p @ t) = starts_with x t"
  by (induction p) auto

lemma starts_with_contains: "starts_with p s \<Longrightarrow> contains p s"
  by (cases s; cases p) auto

lemma replace_sub_at_match:
  "p \<noteq> [] \<Longrightarrow> replace_sub p r (p @ t) = r @ replace_sub p r t"
  by (cases p) auto

lemma contains_Cons: "contains p s \<Longrightarrow> contains p (c # s)"
  by simp

lemma contains_drop: "contains p (drop n s) \<Longrightarrow> contains p s"
proof (induction s arbitrary: n)
  case Nil
  then show ?case by simp
next
  case (Cons c s)
  show ?case
  proof (cases n)
    case 0
    then show ?thesis using Cons.prems by simp
  next
    case (Suc k)
    then have "contains p s" using Cons by simp
    then show ?thesis by simp
  qed
qed


lemma contains_skip_prefix:
  "q \<notin> set x \<Longrightarrow> contains (q # a) (x @ y) = contains (q # a) y"
  by (induction x) auto

lemma count_sub_zero_iff: "p \<noteq> [] \<Longrightarrow> (count_sub p s = 0) = (\<not> contains p s)"
  by (induction s) auto

lemma replace_keeps_quote_free_prefix:
  "q \<notin> set x \<Longrightarrow> starts_with x (replace_sub (q # a) (q # b) t) = starts_with x t"
proof (induction x arbitrary: t)
  case Nil
  then show ?case by simp
next
  case (Cons c x)
  then have cq: "c \<noteq> q" and xq: "q \<notin> set x" by auto
  show ?case
  proof (cases t)
    case Nil
    then show ?thesis by simp
  next
    case (Cons d t')
    show ?thesis
    proof (cases "starts_with (q # a) (d # t')")
      case True
      then have "d = q" by simp
      then show ?thesis using True Cons cq by simp
    next
      case False
      then show ?thesis using Cons Cons.IH [OF xq, of t'] by auto
    qed
  qed
qed

lemma replace_keeps_prefix_up_to_quote:
  "q \<notin> set x \<Longrightarrow>
     starts_with (x @ [q]) (replace_sub (q # a) (q # b) t) = starts_with (x @ [q]) t"
proof (induction x arbitrary: t)
  case Nil
  show ?case
  proof (cases t)
    case Nil
    then show ?thesis by simp
  next
    case (Cons d t')
    then show ?thesis by (cases "starts_with (q # a) (d # t')") auto
  qed
next
  case (Cons c x)
  then have cq: "c \<noteq> q" and xq: "q \<notin> set x" by auto
  show ?case
  proof (cases t)
    case Nil
    then show ?thesis by simp
  next
    case (Cons d t')
    show ?thesis
    proof (cases "starts_with (q # a) (d # t')")
      case True
      then have "d = q" by simp
      then show ?thesis using True Cons cq by simp
    next
      case False
      then show ?thesis using Cons Cons.IH [OF xq, of t'] by auto
    qed
  qed
qed

lemma quoted_prefix_eq:
  "q \<notin> set old \<Longrightarrow> q \<notin> set new \<Longrightarrow>
     starts_with (old @ [q]) (new @ q # w) = (old = new)"
proof (induction old arbitrary: new)
  case Nil
  then show ?case by (cases new) auto
next
  case (Cons c old)
  then show ?case by (cases new) auto
qed

lemma unrelated_paths_sep:
  "old \<noteq> new \<Longrightarrow> \<not> starts_with (old @ [c]) new \<Longrightarrow> \<not> starts_with (new @ [c]) old
     \<Longrightarrow> \<not> starts_with (old @ [c]) (new @ c # w)"
proof (induction old arbitrary: new)
  case Nil
  then show ?case by (cases new) auto
next
  case (Cons a old)
  then show ?case by (cases new) auto
qed

lemma unrelated_paths_quote:
  "q \<notin> set new \<Longrightarrow> q \<noteq> c \<Longrightarrow> \<not> starts_with (new @ [c]) old
     \<Longrightarrow> \<not> starts_with (old @ [q]) (new @ c # w)"
proof (induction old arbitrary: new)
  case Nil
  then show ?case by (cases new) auto
next
  case (Cons a old)
  then show ?case by (cases new) auto
qed

lemma starts_with_decompose: "starts_with p s \<Longrightarrow> s = p @ drop (length p) s"
  by (induction p s rule: starts_with.induct) auto

lemma exact_replaced_everywhere:
  assumes q: "q \<notin> set old" "q \<notin> set new" and ne: "old \<noteq> new"
  shows "\<not> contains (q # old @ q # old @ [q]) s \<Longrightarrow>
         \<not> contains (q # old @ [q]) (replace_sub (q # old @ [q]) (q # new @ [q]) s)"
proof (induction s rule: length_induct)
  case (1 s)
  let ?p = "q # old @ [q]" and ?r = "q # new @ [q]"
  show ?case
  proof (cases s)
    case Nil
    then show ?thesis by simp
  next
    case (Cons c s')
    show ?thesis
    proof (cases "starts_with ?p s")
      case True
      define t where "t = drop (length ?p) s"
      have s: "s = ?p @ t" unfolding t_def by (rule starts_with_decompose [OF True])
      have lt: "length t < length s" using s by simp
      have nt: "\<not> contains (q # old @ q # old @ [q]) t"
        using "1.prems" contains_drop [of _ "length ?p" s] unfolding t_def by blast
      have ih: "\<not> contains ?p (replace_sub ?p ?r t)"
        using "1.IH" lt nt by blast
      have rs: "replace_sub ?p ?r s = ?r @ replace_sub ?p ?r t"
        by (subst s) (rule replace_sub_at_match, simp)
      have a: "\<not> starts_with (old @ [q]) (new @ q # replace_sub ?p ?r t)"
        using quoted_prefix_eq [OF q] ne by simp
      have b: "\<not> starts_with (old @ [q]) (replace_sub ?p ?r t)"
      proof
        assume "starts_with (old @ [q]) (replace_sub ?p ?r t)"
        then have "starts_with (old @ [q]) t"
          using replace_keeps_prefix_up_to_quote [OF q(1)] by simp
        then have "starts_with (?p @ (old @ [q])) (?p @ t)"
          by (simp only: starts_with_append_same)
        then have "starts_with (q # old @ q # old @ [q]) (?p @ t)"
          by simp
        then have "starts_with (q # old @ q # old @ [q]) s"
          using s by simp
        then have "contains (q # old @ q # old @ [q]) s"
          by (rule starts_with_contains)
        then show False using "1.prems" by simp
      qed
      have "contains ?p (?r @ replace_sub ?p ?r t)
              = (starts_with (old @ [q]) (new @ q # replace_sub ?p ?r t)
                 \<or> contains ?p (new @ q # replace_sub ?p ?r t))"
        by simp
      also have "contains ?p (new @ q # replace_sub ?p ?r t)
              = contains ?p (q # replace_sub ?p ?r t)"
        using contains_skip_prefix [OF q(2)] by simp
      also have "contains ?p (q # replace_sub ?p ?r t)
              = (starts_with (old @ [q]) (replace_sub ?p ?r t)
                 \<or> contains ?p (replace_sub ?p ?r t))"
        by simp
      finally show ?thesis using a b ih rs by simp
    next
      case False
      have lt: "length s' < length s" using Cons by simp
      have nt: "\<not> contains (q # old @ q # old @ [q]) s'"
        using "1.prems" Cons by simp
      have ih: "\<not> contains ?p (replace_sub ?p ?r s')"
        using "1.IH" lt nt by blast
      have rs: "replace_sub ?p ?r s = c # replace_sub ?p ?r s'"
        using False Cons by auto
      have "\<not> starts_with ?p (c # replace_sub ?p ?r s')"
      proof
        assume "starts_with ?p (c # replace_sub ?p ?r s')"
        then have cq: "c = q"
          and sw: "starts_with (old @ [q]) (replace_sub ?p ?r s')" by auto
        have "starts_with (old @ [q]) s'"
          using sw replace_keeps_prefix_up_to_quote [OF q(1)] by simp
        then have "starts_with ?p s" unfolding Cons cq by simp
        then show False using False by blast
      qed
      then show ?thesis using ih rs by simp
    qed
  qed
qed

lemma prefixed_replaced_everywhere:
  assumes q: "q \<notin> set old" "q \<notin> set new" "q \<noteq> c" and ne: "old \<noteq> new"
    and un: "\<not> starts_with (old @ [c]) new" "\<not> starts_with (new @ [c]) old"
  shows "\<not> contains (q # old @ [c]) (replace_sub (q # old @ [c]) (q # new @ [c]) s)"
proof (induction s rule: length_induct)
  case (1 s)
  let ?p = "q # old @ [c]" and ?r = "q # new @ [c]"
  have qp: "q \<notin> set (old @ [c])" using q by auto
  show ?case
  proof (cases s)
    case Nil
    then show ?thesis by simp
  next
    case (Cons d s')
    show ?thesis
    proof (cases "starts_with ?p s")
      case True
      define t where "t = drop (length ?p) s"
      have s: "s = ?p @ t" unfolding t_def by (rule starts_with_decompose [OF True])
      have lt: "length t < length s" using s by simp
      have ih: "\<not> contains ?p (replace_sub ?p ?r t)"
        using "1.IH" lt by blast
      have rs: "replace_sub ?p ?r s = ?r @ replace_sub ?p ?r t"
        by (subst s) (rule replace_sub_at_match, simp)
      have a: "\<not> starts_with (old @ [c]) (new @ c # replace_sub ?p ?r t)"
        using unrelated_paths_sep [OF ne un] by simp
      have "contains ?p ((new @ [c]) @ replace_sub ?p ?r t)
              = contains ?p (replace_sub ?p ?r t)"
        using contains_skip_prefix [of q "new @ [c]"] q by simp
      then have "contains ?p (?r @ replace_sub ?p ?r t)
              = (starts_with (old @ [c]) (new @ c # replace_sub ?p ?r t)
                 \<or> contains ?p (replace_sub ?p ?r t))"
        by simp
      then show ?thesis using a ih rs by simp
    next
      case False
      have lt: "length s' < length s" using Cons by simp
      have ih: "\<not> contains ?p (replace_sub ?p ?r s')"
        using "1.IH" lt by blast
      have rs: "replace_sub ?p ?r s = d # replace_sub ?p ?r s'"
        using False Cons by auto
      have "\<not> starts_with ?p (d # replace_sub ?p ?r s')"
      proof
        assume "starts_with ?p (d # replace_sub ?p ?r s')"
        then have dq: "d = q"
          and sw: "starts_with (old @ [c]) (replace_sub ?p ?r s')" by auto
        have "starts_with (old @ [c]) s'"
          using sw replace_keeps_quote_free_prefix [OF qp] by simp
        then have "starts_with ?p s" unfolding Cons dq by simp
        then show False using False by blast
      qed
      then show ?thesis using ih rs by simp
    qed
  qed
qed

lemma exact_not_reintroduced:
  assumes q: "q \<notin> set old" "q \<notin> set new" "q \<noteq> c"
    and un: "\<not> starts_with (new @ [c]) old"
  shows "\<not> contains (q # old @ [q]) s \<Longrightarrow>
         \<not> contains (q # old @ [q]) (replace_sub (q # old @ [c]) (q # new @ [c]) s)"
proof (induction s rule: length_induct)
  case (1 s)
  let ?p = "q # old @ [c]" and ?r = "q # new @ [c]" and ?e = "q # old @ [q]"
  show ?case
  proof (cases s)
    case Nil
    then show ?thesis by simp
  next
    case (Cons d s')
    show ?thesis
    proof (cases "starts_with ?p s")
      case True
      define t where "t = drop (length ?p) s"
      have s: "s = ?p @ t" unfolding t_def by (rule starts_with_decompose [OF True])
      have lt: "length t < length s" using s by simp
      have nt: "\<not> contains ?e t"
        using "1.prems" contains_drop [of _ "length ?p" s] unfolding t_def by blast
      have ih: "\<not> contains ?e (replace_sub ?p ?r t)"
        using "1.IH" lt nt by blast
      have rs: "replace_sub ?p ?r s = ?r @ replace_sub ?p ?r t"
        by (subst s) (rule replace_sub_at_match, simp)
      have a: "\<not> starts_with (old @ [q]) (new @ c # replace_sub ?p ?r t)"
        using unrelated_paths_quote [OF q(2,3) un] by simp
      have "contains ?e ((new @ [c]) @ replace_sub ?p ?r t)
              = contains ?e (replace_sub ?p ?r t)"
        using contains_skip_prefix [of q "new @ [c]"] q by simp
      then have "contains ?e (?r @ replace_sub ?p ?r t)
              = (starts_with (old @ [q]) (new @ c # replace_sub ?p ?r t)
                 \<or> contains ?e (replace_sub ?p ?r t))"
        by simp
      then show ?thesis using a ih rs by simp
    next
      case False
      have lt: "length s' < length s" using Cons by simp
      have nt: "\<not> contains ?e s'" using "1.prems" Cons by simp
      have ih: "\<not> contains ?e (replace_sub ?p ?r s')"
        using "1.IH" lt nt by blast
      have rs: "replace_sub ?p ?r s = d # replace_sub ?p ?r s'"
        using False Cons by auto
      have "\<not> starts_with ?e (d # replace_sub ?p ?r s')"
      proof
        assume "starts_with ?e (d # replace_sub ?p ?r s')"
        then have dq: "d = q"
          and sw: "starts_with (old @ [q]) (replace_sub ?p ?r s')" by auto
        have "starts_with (old @ [q]) s'"
          using sw replace_keeps_prefix_up_to_quote [OF q(1)] by simp
        then have "starts_with ?e s" unfolding Cons dq by simp
        then have "contains ?e s" by (rule starts_with_contains)
        then show False using "1.prems" by simp
      qed
      then show ?thesis using ih rs by simp
    qed
  qed
qed

section \<open>Unterminated walks and the count of removed lines\<close>

lemma find_sub_bound: "find_sub p s = Some k \<Longrightarrow> k + length p \<le> length s"
proof (induction s arbitrary: k)
  case Nil
  then show ?case by (simp split: if_splits)
next
  case (Cons c s)
  show ?case
  proof (cases "starts_with p (c # s)")
    case True
    then obtain t where "c # s = p @ t" using starts_with_append by blast
    then have "length p \<le> length (c # s)" by (metis le_add1 length_append)
    then show ?thesis using True Cons.prems by simp
  next
    case False
    then obtain j where "find_sub p s = Some j" "k = Suc j"
      using Cons.prems by (auto split: if_splits)
    then show ?thesis using Cons.IH by simp
  qed
qed

lemma groups_section_walk_unterminated:
  assumes "groups_section_walk content = Some (start, pos, n)" and "0 < n"
  shows "pos = length content
         \<and> groups_content content = Some (slice start (length content - 1) content)"
proof -
  from assms(1) obtain gs k where
    k: "find_sub ''{'' (drop gs content) = Some k"
    and st: "start = gs + k + 1"
    and w: "walk_from content start = (pos, n)"
    by (auto simp: groups_section_walk_def Let_def
          split: if_splits option.splits prod.splits)
  have "k + 1 \<le> length (drop gs content)"
    using find_sub_bound [OF k] by simp
  then have le: "start \<le> length content" using st by simp
  have p: "pos = length content"
    using walk_from_nonzero [OF w assms(2) le] .
  show ?thesis
    using p assms(1) by (simp add: groups_content_def)
qed

lemma removed_count:
  "rm_removed (remove_items_scan ids content)
     = card {i \<in> set ids. \<exists>l \<in> set (split_chr CHR 0x0A content). item_line_id l = Some i}"
proof -
  let ?lines = "split_chr CHR 0x0A content"
  let ?st0 = "\<lparr>rm_removed = 0, ids_to_remove = set ids, new_lines = []\<rparr>"
  let ?A = "{i \<in> set ids. \<exists>l \<in> set ?lines. item_line_id l = Some i}"
  let ?B = "{i \<in> set ids. \<forall>l \<in> set ?lines. item_line_id l \<noteq> Some i}"
  have rest: "ids_to_remove (remove_loop ?lines ?st0) = ?B"
    using remove_loop_ids [of ?lines ?st0] by auto
  have sum: "rm_removed (remove_loop ?lines ?st0) + card ?B = card (set ids)"
    using remove_loop_count [of ?st0 ?lines] rest by simp
  have un: "set ids = ?A \<union> ?B" and dj: "?A \<inter> ?B = {}" by auto
  have "card (?A \<union> ?B) = card ?A + card ?B"
    by (rule card_Un_disjoint) (use dj in auto)
  then have "card (set ids) = card ?A + card ?B" using un by simp
  then show ?thesis using sum by (simp add: remove_items_scan_def)
qed

section \<open>Substrings, matches and walks under an insertion\<close>

lemma contains_iff: "contains p s = (\<exists>a b. s = a @ p @ b)"
proof (induction s)
  case Nil
  then show ?case by auto
next
  case (Cons c s)
  note IH = Cons.IH
  show ?case
  proof
    assume "contains p (c # s)"
    then consider "starts_with p (c # s)" | "contains p s" by auto
    then show "\<exists>a b. c # s = a @ p @ b"
    proof cases
      case 1
      then obtain t where "c # s = p @ t" using starts_with_append by blast
      then have "c # s = [] @ p @ t" by simp
      then show ?thesis by blast
    next
      case 2
      then obtain a b where "s = a @ p @ b" using IH by blast
      then have "c # s = (c # a) @ p @ b" by simp
      then show ?thesis by blast
    qed
  next
    assume "\<exists>a b. c # s = a @ p @ b"
    then obtain a b where ab: "c # s = a @ p @ b" by blast
    show "contains p (c # s)"
    proof (cases a)
      case Nil
      then have "c # s = p @ b" using ab by simp
      then have "starts_with p (c # s)" using starts_with_iff by blast
      then show ?thesis by simp
    next
      case (Cons d a')
      then have "s = a' @ p @ b" using ab by simp
      then have "contains p s" using IH by blast
      then show ?thesis by simp
    qed
  qed
qed

lemma contains_take: "contains p (take n s) \<Longrightarrow> contains p s"
proof -
  assume "contains p (take n s)"
  then obtain a b where t: "take n s = a @ p @ b" using contains_iff by blast
  have "s = take n s @ drop n s" by simp
  then have "s = a @ p @ (b @ drop n s)" using t by simp
  then show ?thesis using contains_iff by blast
qed































section \<open>The second call of \<open>add_items\<close>\<close>








section \<open>Claims\<close>

text \<open>
  C4. For a group path with segments \<open>s1 .. sn\<close> (joined by the back-tick separator), the
  tree-status key is the space-joined token list whose token 0 is the sentinel \<open>1\<close> and
  whose token \<open>k\<close>, for \<open>1 \<le> k \<le> n\<close>, is the first \<open>k\<close> segments joined by the separator;
  for the segments A, B, C the key is \<open>1 A A`B A`B`C\<close>.
\<close>

theorem gts_key_cumulative:
  assumes "segs \<noteq> []" and "\<forall>s \<in> set segs. CHR ''`'' \<notin> set s"
  shows "gts_key (join ''`'' segs) = join '' '' (gts_path_parts (join ''`'' segs))
       \<and> length (gts_path_parts (join ''`'' segs)) = Suc (length segs)
       \<and> gts_path_parts (join ''`'' segs) ! 0 = ''1''
       \<and> (\<forall>k. 1 \<le> k \<and> k \<le> length segs \<longrightarrow>
             gts_path_parts (join ''`'' segs) ! k = join ''`'' (take k segs))
       \<and> gts_key ''A`B`C'' = ''1 A A`B A`B`C''"
proof -
  have sp: "split_chr CHR ''`'' (join ''`'' segs) = segs"
    using split_join_roundtrip [OF assms] by simp
  have len: "length (gts_path_parts (join ''`'' segs)) = Suc (length segs)"
    by (simp add: gts_path_parts_split sp)
  have tok: "\<forall>k. 1 \<le> k \<and> k \<le> length segs \<longrightarrow>
               gts_path_parts (join ''`'' segs) ! k = join ''`'' (take k segs)"
  proof (intro allI impI)
    fix k assume k: "1 \<le> k \<and> k \<le> length segs"
    then obtain j where j: "k = Suc j" "j < length segs"
      by (cases k) auto
    show "gts_path_parts (join ''`'' segs) ! k = join ''`'' (take k segs)"
      using j by (simp add: gts_path_parts_split sp)
  qed
  have ex: "gts_key ''A`B`C'' = ''1 A A`B A`B`C''"
    by (simp add: gts_key_def gts_path_parts_def Let_def upt_rec)
  show ?thesis
    using len tok ex by (simp add: gts_key_def gts_path_parts_split)
qed

theorem gts_key_cumulative_witness:
  "gts_key ''Armor`Cloth'' = ''1 Armor Armor`Cloth''
   \<and> gts_path_parts ''Armor`Cloth'' = [''1'', ''Armor'', ''Armor`Cloth'']"
proof -
  have ne: "[''Armor'', ''Cloth''] \<noteq> []" by simp
  have nb: "\<forall>s \<in> set [''Armor'', ''Cloth'']. CHR ''`'' \<notin> set s" by simp
  have j: "join ''`'' [''Armor'', ''Cloth''] = ''Armor`Cloth''" by simp
  have t: "gts_path_parts ''Armor`Cloth'' = [''1'', ''Armor'', ''Armor`Cloth'']"
    by (simp add: gts_path_parts_def Let_def upt_rec)
  show ?thesis
    using gts_key_cumulative [OF ne nb] t unfolding j by simp
qed

text \<open>
  C10. Each requested identifier deletes at most one line: of the lines whose key
  decodes to a requested identifier the first is dropped and the later ones are kept, in
  their order; lines of identifiers that were not requested are all kept; and
  \<open>removed + not_found\<close> is the number of distinct requested identifiers.
\<close>

theorem remove_items_one_line_per_id:
  "removed (fst (remove_items_text ids content))
     + not_found (fst (remove_items_text ids content)) = card (set ids)
   \<and> (\<forall>i. filter (\<lambda>l. item_line_id l = Some i) (new_lines (remove_items_scan ids content)) =
          (if i \<in> set ids
           then tl (filter (\<lambda>l. item_line_id l = Some i) (split_chr CHR 0x0A content))
           else filter (\<lambda>l. item_line_id l = Some i) (split_chr CHR 0x0A content)))
   \<and> length (new_lines (remove_items_scan ids content))
       + removed (fst (remove_items_text ids content))
       = length (split_chr CHR 0x0A content)
   \<and> snd (remove_items_text ids content) = join nl (new_lines (remove_items_scan ids content))"
proof -
  let ?st0 = "\<lparr>rm_removed = 0, ids_to_remove = set ids, new_lines = []\<rparr>"
  have c: "rm_removed (remove_loop (split_chr CHR 0x0A content) ?st0)
           + card (ids_to_remove (remove_loop (split_chr CHR 0x0A content) ?st0))
           = card (set ids)"
    using remove_loop_count [of ?st0 "split_chr CHR 0x0A content"] by simp
  have f: "\<And>i. filter (\<lambda>l. item_line_id l = Some i)
                 (new_lines (remove_loop (split_chr CHR 0x0A content) ?st0)) =
               (if i \<in> set ids
                then tl (filter (\<lambda>l. item_line_id l = Some i) (split_chr CHR 0x0A content))
                else filter (\<lambda>l. item_line_id l = Some i) (split_chr CHR 0x0A content))"
    using remove_loop_lines_id [of _ "split_chr CHR 0x0A content" ?st0] by simp
  have l: "length (new_lines (remove_loop (split_chr CHR 0x0A content) ?st0))
           + rm_removed (remove_loop (split_chr CHR 0x0A content) ?st0)
           = length (split_chr CHR 0x0A content)"
    using remove_loop_length [of "split_chr CHR 0x0A content" ?st0] by simp
  show ?thesis
    using c f l by (simp add: remove_items_text_def remove_items_scan_def Let_def)
qed

theorem remove_items_one_line_per_id_witness:
  \<open>remove_items_text [7, 9, 7]
      ''["item:7:0:0:0:0:0:0"] = "A",\<newline>["item:8:0:0:0:0:0:0"] = "B",\<newline>["item:7:0:0:0:0:0:0"] = "C",''
    = (\<lparr>removed = 1, not_found = 1, rm_errors = []\<rparr>,
       ''["item:8:0:0:0:0:0:0"] = "B",\<newline>["item:7:0:0:0:0:0:0"] = "C",'')
    \<and> card (set [7, 9, 7 :: int]) = 2\<close>
proof -
  let ?doc = \<open>''["item:7:0:0:0:0:0:0"] = "A",\<newline>["item:8:0:0:0:0:0:0"] = "B",\<newline>["item:7:0:0:0:0:0:0"] = "C",''\<close>
  have ids: "map item_line_id (split_chr CHR 0x0A ?doc) = [Some 7, Some 8, Some 7]"
    by (simp add: item_line_id_def match_item_key_at_def is_digit_def int_of_digits_def)
  have sp: \<open>split_chr CHR 0x0A ?doc =
              [''["item:7:0:0:0:0:0:0"] = "A",'', ''["item:8:0:0:0:0:0:0"] = "B",'',
               ''["item:7:0:0:0:0:0:0"] = "C",'']\<close>
    by simp
  have sc: \<open>remove_items_scan [7, 9, 7] ?doc =
              \<lparr>rm_removed = 1, ids_to_remove = {9},
               new_lines = [''["item:8:0:0:0:0:0:0"] = "B",'',
                            ''["item:7:0:0:0:0:0:0"] = "C",'']\<rparr>\<close>
    using ids unfolding remove_items_scan_def sp by auto
  show ?thesis
    using remove_items_one_line_per_id [of "[7, 9, 7]" ?doc] sc
    by (simp add: remove_items_text_def nl_def)
qed

text \<open>
  C8, as the claim states it, fails: an entry keyed in the short encoding is decoded by
  the parser's \<open>get_item_id\<close> but is not matched by \<open>remove_items\<close>, which leaves the
  line in place and counts the identifier as not found.
\<close>

theorem remove_items_short_key_counterexample:
  \<open>get_item_id ''i:123'' = Some 123
   \<and> remove_items_text [123] ''["i:123"] = "G",''
       = (\<lparr>removed = 0, not_found = 1, rm_errors = []\<rparr>, ''["i:123"] = "G",'')\<close>
  by (simp add: get_item_id_def match_digits_after_def is_digit_def int_of_digits_def
        remove_items_text_def remove_items_scan_def item_line_id_def match_item_key_at_def)

text \<open>
  C8, amended. \<open>remove_items\<close> decodes a line by the leftmost text of the form
  \<open>["item:<digits>:\<close> on it (the one search of its loop); a line without such a text
  decodes to nothing. For every identifier in the requested set, the first line that
  decodes to the identifier is removed and every later one is kept. \<open>removed\<close> is the
  number of requested identifiers to which some line decodes, and \<open>not_found\<close> the
  number of those to which no line decodes: an identifier held only by a later key of a
  line, or only by a key in the short encoding, is counted there. When the legacy key
  stands at the start of the line, after white space, the decoding is that of the
  parser's \<open>get_item_id\<close> on the key. A line without the text \<open>["item:\<close>, so every
  entry keyed in the short encoding only, is kept.
\<close>

theorem remove_items_legacy_keys:
  \<open>(\<forall>i \<in> set ids.
       (i \<in> ids_to_remove (remove_items_scan ids content))
         = (\<forall>l \<in> set (split_chr CHR 0x0A content). item_line_id l \<noteq> Some i))
   \<and> not_found (fst (remove_items_text ids content))
       = card {i \<in> set ids. \<forall>l \<in> set (split_chr CHR 0x0A content). item_line_id l \<noteq> Some i}
   \<and> (\<forall>i \<in> set ids.
         filter (\<lambda>l. item_line_id l = Some i) (new_lines (remove_items_scan ids content))
           = tl (filter (\<lambda>l. item_line_id l = Some i) (split_chr CHR 0x0A content)))
   \<and> (\<forall>l \<in> set (split_chr CHR 0x0A content).
         \<not> contains ''["item:'' l \<longrightarrow> l \<in> set (new_lines (remove_items_scan ids content)))
   \<and> (\<forall>ws ds rest. list_all is_space ws \<and> ds \<noteq> [] \<and> list_all is_digit ds \<longrightarrow>
         item_line_id (ws @ ''["item:'' @ ds @ '':'' @ rest)
           = get_item_id (''item:'' @ ds @ '':'' @ rest))
   \<and> removed (fst (remove_items_text ids content))
       = card {i \<in> set ids. \<exists>l \<in> set (split_chr CHR 0x0A content). item_line_id l = Some i}
   \<and> snd (remove_items_text ids content)
       = join nl (new_lines (remove_items_scan ids content))\<close>
proof -
  let ?lines = "split_chr CHR 0x0A content"
  let ?st0 = "\<lparr>rm_removed = 0, ids_to_remove = set ids, new_lines = []\<rparr>"
  have rest: "ids_to_remove (remove_loop ?lines ?st0)
              = {i \<in> set ids. \<forall>l \<in> set ?lines. item_line_id l \<noteq> Some i}"
    using remove_loop_ids [of ?lines ?st0] by auto
  have a: "\<forall>i \<in> set ids. (i \<in> ids_to_remove (remove_items_scan ids content))
             = (\<forall>l \<in> set ?lines. item_line_id l \<noteq> Some i)"
    using rest by (simp add: remove_items_scan_def)
  have b: "not_found (fst (remove_items_text ids content))
             = card {i \<in> set ids. \<forall>l \<in> set ?lines. item_line_id l \<noteq> Some i}"
    using rest by (simp add: remove_items_text_def remove_items_scan_def Let_def)
  have c: "\<forall>i \<in> set ids.
             filter (\<lambda>l. item_line_id l = Some i) (new_lines (remove_items_scan ids content))
               = tl (filter (\<lambda>l. item_line_id l = Some i) ?lines)"
    using remove_loop_lines_id [of _ ?lines ?st0] by (simp add: remove_items_scan_def)
  have d: \<open>\<forall>l \<in> set ?lines.
             \<not> contains ''["item:'' l \<longrightarrow> l \<in> set (new_lines (remove_items_scan ids content))\<close>
  proof (intro ballI impI)
    fix l assume l: "l \<in> set ?lines" and n: \<open>\<not> contains ''["item:'' l\<close>
    have "item_line_id l = None"
      using search_item_key_none [OF n] by (simp add: item_line_id_def)
    then have "l \<in> set (filter (\<lambda>l. item_line_id l = None) ?lines)"
      using l by simp
    then have "l \<in> set (filter (\<lambda>l. item_line_id l = None)
                           (new_lines (remove_loop ?lines ?st0)))"
      using remove_loop_lines_none [of ?lines ?st0] by simp
    then show "l \<in> set (new_lines (remove_items_scan ids content))"
      by (simp add: remove_items_scan_def)
  qed
  have e: \<open>\<forall>ws ds rest. list_all is_space ws \<and> ds \<noteq> [] \<and> list_all is_digit ds \<longrightarrow>
             item_line_id (ws @ ''["item:'' @ ds @ '':'' @ rest)
               = get_item_id (''item:'' @ ds @ '':'' @ rest)\<close>
    using search_item_key_legacy get_item_id_legacy
    by (simp add: item_line_id_def del: append.simps)
  have f: "removed (fst (remove_items_text ids content))
             = card {i \<in> set ids. \<exists>l \<in> set ?lines. item_line_id l = Some i}"
    using removed_count [of ids content] by (simp add: remove_items_text_def Let_def)
  have g: "snd (remove_items_text ids content)
             = join nl (new_lines (remove_items_scan ids content))"
    by (simp add: remove_items_text_def Let_def)
  show ?thesis using a b c d e f g by blast
qed

theorem remove_items_legacy_keys_witness:
  \<open>remove_items_text [12345, 22222]
      ''  ["item:12345:0:0:0:0:0:0"] = "Test`One",\<newline>  ["i:22222"] = "Test`Three",''
    = (\<lparr>removed = 1, not_found = 1, rm_errors = []\<rparr>, ''  ["i:22222"] = "Test`Three",'')
   \<and> item_line_id ''  ["item:12345:0:0:0:0:0:0"] = "Test`One",'' = get_item_id ''item:12345:0:0:0:0:0:0''
   \<and> remove_items_text [2] ''["item:1:0"] = "A", ["item:2:0"] = "B",''
       = (\<lparr>removed = 0, not_found = 1, rm_errors = []\<rparr>,
          ''["item:1:0"] = "A", ["item:2:0"] = "B",'')\<close>
proof -
  let ?doc = \<open>''  ["item:12345:0:0:0:0:0:0"] = "Test`One",\<newline>  ["i:22222"] = "Test`Three",''\<close>
  let ?two = \<open>''["item:1:0"] = "A", ["item:2:0"] = "B",''\<close>
  have sp: \<open>split_chr CHR 0x0A ?doc =
              [''  ["item:12345:0:0:0:0:0:0"] = "Test`One",'', ''  ["i:22222"] = "Test`Three",'']\<close>
    by simp
  have ids: "map item_line_id (split_chr CHR 0x0A ?doc) = [Some 12345, None]"
    by (simp add: item_line_id_def match_item_key_at_def is_digit_def int_of_digits_def)
  have sc: \<open>remove_items_scan [12345, 22222] ?doc =
              \<lparr>rm_removed = 1, ids_to_remove = {22222},
               new_lines = [''  ["i:22222"] = "Test`Three",'']\<rparr>\<close>
    using ids unfolding remove_items_scan_def sp by auto
  have g: "get_item_id ''item:12345:0:0:0:0:0:0'' = Some 12345"
    by (simp add: get_item_id_def match_digits_after_def is_digit_def int_of_digits_def)
  have sp2: "split_chr CHR 0x0A ?two = [?two]"
    by simp
  have id2: "item_line_id ?two = Some 1"
    by (simp add: item_line_id_def match_item_key_at_def is_digit_def int_of_digits_def)
  have sc2: "remove_items_scan [2] ?two
               = \<lparr>rm_removed = 0, ids_to_remove = {2}, new_lines = [?two]\<rparr>"
    using id2 unfolding remove_items_scan_def sp2 by simp
  show ?thesis
    using remove_items_legacy_keys [of "[12345, 22222]" ?doc] sc sc2 ids g
    by (simp add: remove_items_text_def)
qed

text \<open>
  C3. Whatever a mutating operation does, in preview mode or not, the document file is
  written only after a full copy of the text that the operation read has been put under
  the time-stamped name in the \<open>backups\<close> directory, as the event just before the write;
  and when the backup fails (or in preview mode) the file system is left as it was, so
  no write takes place.
\<close>

theorem backup_precedes_every_write:
  "backup_then_write fs (snd (add_groups set_order group_paths dry_run fs))
   \<and> backup_then_write fs (snd (add_items items_dict dry_run fs))
   \<and> backup_then_write fs (snd (remove_items item_ids dry_run fs))
   \<and> backup_then_write fs (snd (rename_group old_path new_path dry_run fs))
   \<and> backup_then_write fs (snd (delete_group group_path delete_items dry_run fs))
   \<and> (\<not> backup_ok fs \<or> dry_run \<longrightarrow>
         snd (add_groups set_order group_paths dry_run fs) = fs
         \<and> snd (add_items items_dict dry_run fs) = fs
         \<and> snd (remove_items item_ids dry_run fs) = fs
         \<and> snd (rename_group old_path new_path dry_run fs) = fs
         \<and> snd (delete_group group_path delete_items dry_run fs) = fs)"
  by (intro conjI impI)
     (simp_all add: add_groups_io add_items_io remove_items_io rename_group_io
        delete_group_io add_groups_untouched add_items_untouched remove_items_untouched
        rename_group_untouched delete_group_untouched)

theorem backup_precedes_every_write_witness:
  \<open>snd (rename_group ''X'' ''Y'' False
          \<lparr>file_text = Some ''["X"] = {}'', read_ok = True, write_ok = True,
           backup_ok = True, now = ''20260224_175602'', backups = [], events = []\<rparr>)
     = \<lparr>file_text = Some ''["Y"] = {}'', read_ok = True, write_ok = True,
        backup_ok = True, now = ''20260224_175602'',
        backups = [(''backups/TradeSkillMaster_20260224_175602.lua'', ''["X"] = {}'')],
        events = [BackupCopied ''backups/TradeSkillMaster_20260224_175602.lua'' ''["X"] = {}'',
                  FileWritten ''["Y"] = {}'']\<rparr>
   \<and> rename_group ''X'' ''Y'' False
          \<lparr>file_text = Some ''["X"] = {}'', read_ok = True, write_ok = True,
           backup_ok = False, now = ''20260224_175602'', backups = [], events = []\<rparr>
     = (Raised BackupFailed,
        \<lparr>file_text = Some ''["X"] = {}'', read_ok = True, write_ok = True,
         backup_ok = False, now = ''20260224_175602'', backups = [], events = []\<rparr>)\<close>
proof -
  let ?fs = \<open>\<lparr>file_text = Some ''["X"] = {}'', read_ok = True, write_ok = True,
              backup_ok = True, now = ''20260224_175602'', backups = [], events = []\<rparr>\<close>
  let ?fs' = \<open>\<lparr>file_text = Some ''["X"] = {}'', read_ok = True, write_ok = True,
               backup_ok = False, now = ''20260224_175602'', backups = [], events = []\<rparr>\<close>
  have t: \<open>rename_group_text ''X'' ''Y'' ''["X"] = {}''
             = (\<lparr>renamed = True, items_updated = 1, groups_updated = 1, rn_errors = []\<rparr>,
                Some ''["Y"] = {}'')\<close>
    by (simp add: rename_group_text_def Let_def)
  have a: \<open>snd (rename_group ''X'' ''Y'' False ?fs)
     = \<lparr>file_text = Some ''["Y"] = {}'', read_ok = True, write_ok = True,
        backup_ok = True, now = ''20260224_175602'',
        backups = [(''backups/TradeSkillMaster_20260224_175602.lua'', ''["X"] = {}'')],
        events = [BackupCopied ''backups/TradeSkillMaster_20260224_175602.lua'' ''["X"] = {}'',
                  FileWritten ''["Y"] = {}'']\<rparr>\<close>
    using backup_precedes_every_write
            [of ?fs id "[]" False "[]" "[]" "''X''" "''Y''" "''X''" False]
    by (simp add: rename_group_def read_file_def t create_backup_def write_file_def
          backup_path_of_def Let_def)
  have b: \<open>rename_group ''X'' ''Y'' False ?fs' = (Raised BackupFailed, ?fs')\<close>
    by (simp add: rename_group_def read_file_def t create_backup_def Let_def)
  show ?thesis using a b by simp
qed

text \<open>
  C9, as the claim states it, fails for the parser: on a document whose groups table is
  never closed the walk of \<open>parse_groups\<close> ends at the end of the text with the counter
  at 3, and the section it goes on to search for group names is the text up to the last
  character but one, with two opening braces and no closing one. The locator
  \<open>_find_real_items_table\<close> accepts a table whose walk did not end either.
\<close>

theorem parse_groups_unbalanced_counterexample:
  \<open>groups_section_walk ''AscensionTSMDB = {["groups"] = {["A"] = {["B"] = {x'' = Some (32, 51, 3)
   \<and> groups_content ''AscensionTSMDB = {["groups"] = {["A"] = {["B"] = {x''
       = Some ''["A"] = {["B"] = {''
   \<and> count_list ''["A"] = {["B"] = {'' CHR ''{'' = 2
   \<and> count_list ''["A"] = {["B"] = {'' CHR ''}'' = 0
   \<and> find_real_groups_table ''AscensionTSMDB = {["groups"] = {["A"] = {["B"] = {x'' = None
   \<and> find_real_items_table ''AscensionTSMDB ["items"] = {{x'' = Some (15, 28)
   \<and> walk_from ''AscensionTSMDB ["items"] = {{x'' 28 = (30, 2)\<close>
  by code_simp

text \<open>
  C9, amended. The span that the matcher \<open>_find_real_groups_table\<close> returns is balanced:
  it lies inside the text, the character at its end is the closing brace that brought
  the counter back to zero, it holds as many opening as closing braces, and no prefix of
  it closes more than it opens. A walk that does not bring the counter back to zero runs
  to the end of the text; \<open>_find_real_groups_table\<close> returns nothing for it. The
  parser's walk in \<open>parse_groups\<close> is the same walk, and its final counter is not looked
  at: when it stops with depth zero its section is balanced, and when it does not, the
  section is the text from the opening brace of the groups table up to the last
  character but one of the document.
\<close>

theorem matcher_spans_balanced:
  "(find_real_groups_table content = Some ((s, e), p) \<longrightarrow>
      walk_from content e = (p, 0)
      \<and> e < p \<and> p \<le> length content \<and> content ! (p - 1) = CHR ''}''
      \<and> count_list (slice e (p - 1) content) CHR ''{''
          = count_list (slice e (p - 1) content) CHR ''}''
      \<and> (\<forall>j \<le> p - 1 - e. count_list (slice e (e + j) content) CHR ''}''
             \<le> count_list (slice e (e + j) content) CHR ''{''))
   \<and> (walk_from content e' = (p', n) \<and> 0 < n \<and> e' \<le> length content \<longrightarrow>
        p' = length content)
   \<and> (groups_section_walk content = Some (start, pos, 0) \<longrightarrow>
        count_list (slice start (pos - 1) content) CHR ''{''
          = count_list (slice start (pos - 1) content) CHR ''}'')
   \<and> (groups_section_walk content = Some (start', pos', n') \<and> 0 < n' \<longrightarrow>
        pos' = length content
        \<and> groups_content content = Some (slice start' (length content - 1) content))"
proof (intro conjI impI)
  assume f: "find_real_groups_table content = Some ((s, e), p)"
  then have w: "walk_from content e = (p, 0)"
    using find_real_groups_loop_some [of content "finditer_table ''groups'' content" "(s, e)" p]
    by (simp add: find_real_groups_table_def)
  show "walk_from content e = (p, 0)" by (rule w)
  show "e < p" "p \<le> length content" "content ! (p - 1) = CHR ''}''"
    "count_list (slice e (p - 1) content) CHR ''{''
       = count_list (slice e (p - 1) content) CHR ''}''"
    "\<forall>j \<le> p - 1 - e. count_list (slice e (e + j) content) CHR ''}''
             \<le> count_list (slice e (e + j) content) CHR ''{''"
    using walk_from_zero [OF w] by blast+
next
  assume "walk_from content e' = (p', n) \<and> 0 < n \<and> e' \<le> length content"
  then show "p' = length content" using walk_from_nonzero by blast
next
  assume g: "groups_section_walk content = Some (start, pos, 0)"
  then have "walk_from content start = (pos, 0)"
    by (auto simp: groups_section_walk_def Let_def
          split: if_splits option.splits prod.splits)
  then show "count_list (slice start (pos - 1) content) CHR ''{''
          = count_list (slice start (pos - 1) content) CHR ''}''"
    using walk_from_zero by blast
next
  assume u: "groups_section_walk content = Some (start', pos', n') \<and> 0 < n'"
  show "pos' = length content"
    using groups_section_walk_unterminated [of content start' pos' n'] u by blast
  show "groups_content content = Some (slice start' (length content - 1) content)"
    using groups_section_walk_unterminated [of content start' pos' n'] u by blast
qed

theorem matcher_spans_balanced_witness:
  \<open>find_real_groups_table ''AscensionTSMDB = {["groups"] = {["A"] = {},},}''
     = Some ((18, 32), 44)
   \<and> slice 32 43 ''AscensionTSMDB = {["groups"] = {["A"] = {},},}'' = ''["A"] = {},''
   \<and> find_real_groups_table ''AscensionTSMDB = {["groups"] = {["A"] = {},'' = None
   \<and> walk_from ''AscensionTSMDB = {["groups"] = {["A"] = {},'' 32 = (43, 1)
   \<and> groups_section_walk ''AscensionTSMDB = {["groups"] = {["A"] = {},'' = Some (32, 43, 1)
   \<and> groups_content ''AscensionTSMDB = {["groups"] = {["A"] = {},'' = Some ''["A"] = {}''\<close>
proof -
  let ?doc = \<open>''AscensionTSMDB = {["groups"] = {["A"] = {},},}''\<close>
  let ?cut = \<open>''AscensionTSMDB = {["groups"] = {["A"] = {},''\<close>
  have f: "find_real_groups_table ?doc = Some ((18, 32), 44)"
    by code_simp
  have sl: \<open>slice 32 43 ?doc = ''["A"] = {},''\<close>
    by code_simp
  have u: "find_real_groups_table ?cut = None"
    by code_simp
  have w: "walk_from ?cut 32 = (43, 1)"
    by code_simp
  have g: "groups_section_walk ?cut = Some (32, 43, 1)"
    by code_simp
  have c: \<open>slice 32 (length ?cut - 1) ?cut = ''["A"] = {}''\<close>
    by code_simp
  show ?thesis
    using matcher_spans_balanced [of ?doc 18 32 44]
      matcher_spans_balanced [of ?cut _ _ _ _ _ _ _ _ 32 43 1] f sl u w g c
    by simp
qed

text \<open>
  C6, on a document in the layout the host application writes (each table opened at
  the end of a line and closed on a line of its own): \<open>delete_group\<close> for \<open>A`B\<close>
  removes the region of the descendant \<open>A`B`C\<close> and reports \<open>subgroups_removed = 0\<close>.
  The first test of the loop already matches a descendant's line (its pattern ends with
  the alternative of a back-tick), so the test that counts descendants is reached only
  by a line that lacks the text \<open>= {\<close>.
\<close>

theorem delete_group_subgroups_not_counted:
  \<open>delete_group_text ''A`B'' True
     ''["groups"] = {\<newline>["A`B"] = {\<newline>},\<newline>["A`B`C"] = {\<newline>},\<newline>["A`D"] = {\<newline>},\<newline>},\<newline>["items"] = {\<newline>["item:1:0:0:0:0:0:0"] = "A`B`C",\<newline>["item:2:0:0:0:0:0:0"] = "A`D",\<newline>},''
   = (\<lparr>deleted = True, items_removed = 1, subgroups_removed = 0, dg_errors = [],
       ui_refs_removed = Some 0\<rparr>,
      Some ''["groups"] = {\<newline>["A`D"] = {\<newline>},\<newline>},\<newline>["items"] = {\<newline>["item:2:0:0:0:0:0:0"] = "A`D",\<newline>},'')\<close>
  by code_simp

text \<open>
  C5, on a document whose group tables are each written on one line: \<open>delete_group\<close>
  for \<open>A`B\<close> with \<open>delete_items\<close> also drops the line of the sibling \<open>A`D\<close> and the line
  that closes the groups table. A definition line whose braces balance leaves the loop
  in its skipping state with depth zero, and the next line is skipped whatever it holds.
\<close>

theorem delete_group_drops_sibling:
  \<open>delete_group_text ''A`B'' True
     ''["groups"] = {\<newline>["A`B"] = {},\<newline>["A`D"] = {},\<newline>["A`B`C"] = {},\<newline>},\<newline>["items"] = {\<newline>["item:1:0:0:0:0:0:0"] = "A`B`C",\<newline>["item:2:0:0:0:0:0:0"] = "A`D",\<newline>},''
   = (\<lparr>deleted = True, items_removed = 1, subgroups_removed = 0, dg_errors = [],
       ui_refs_removed = Some 0\<rparr>,
      Some ''["groups"] = {\<newline>["items"] = {\<newline>["item:2:0:0:0:0:0:0"] = "A`D",\<newline>},'')\<close>
  by code_simp

text \<open>
  C1, as the claim states it, fails: a decoy whose flags are written \<open>= false\<close> holds
  neither \<open>true,\<close> nor \<open>= true\<close>; when it comes first and no open \<open>["groupTreeStatus"]\<close>
  precedes it, \<open>add_items\<close> inserts the new entry into the decoy and not into the table
  that holds the nested sub-table.
\<close>

theorem add_items_decoy_counterexample:
  \<open>add_items_text [(5, ''G'')]
     ''AscensionTSMDB = {\<newline>["ui"] = {\<newline>["items"] = {\<newline>["1"] = false,\<newline>},\<newline>},\<newline>["items"] = {\<newline>["sub"] = {\<newline>},\<newline>},\<newline>}''
   = (\<lparr>added = 1, skipped = 0, errors = []\<rparr>,
      Some (''AscensionTSMDB = {\<newline>["ui"] = {\<newline>["items"] = {\<newline>'' @ tabs 4 @
            ''["item:5:0:0:0:0:0:0"] = "G",\<newline>["1"] = false,\<newline>},\<newline>},\<newline>["items"] = {\<newline>["sub"] = {\<newline>},\<newline>},\<newline>}''))\<close>
  by code_simp

text \<open>
  C1, amended. In a document of the nested-profile format in which
  \<open>_find_real_items_table\<close> finds a table, \<open>add_items\<close> inserts the block of new entries
  immediately after the opening brace of that table (and then resets the collapsed-status
  tables). The table is the first \<open>["items"]\<close> marker, in document order, that passes both
  checks: no \<open>["groupTreeStatus"]\<close> left open in the 500 characters before it, and neither
  \<open>true,\<close> nor \<open>= true\<close> in its content; every marker before it fails one of them. So a
  decoy is passed over when it lies in an open \<open>["groupTreeStatus"]\<close> or holds one of the
  two texts, and a table that holds one of them is never the one chosen.
\<close>

theorem add_items_first_accepted_table:
  "detect_tsm_format content = ''ascension'' \<and> find_real_items_table content = Some (s, e) \<longrightarrow>
     add_items_text items_dict content =
       (case add_items_loop content items_dict
               ([], \<lparr>added = 0, skipped = 0, errors = []\<rparr>) of
          (new_entries, result) \<Rightarrow>
            if new_entries \<noteq> []
            then (result,
                  Some (cleanup_ui_state (splice e (nl @ join nl new_entries) content)))
            else (result, None))
     \<and> (\<exists>pre post. finditer_table ''items'' content = pre @ (s, e) # post
            \<and> (\<forall>x \<in> set pre. table_rejected content x))
     \<and> \<not> inside_group_tree_status content s
     \<and> \<not> has_boolean_flags (slice e (fst (walk_from content e) - 1) content)
     \<and> s < e \<and> e \<le> length content \<and> content ! (e - 1) = CHR ''{''
     \<and> match_assign_at (quoted_key ''items'') ''{'' (drop s content) = Some (e - s)"
proof (intro impI)
  assume a: "detect_tsm_format content = ''ascension''
             \<and> find_real_items_table content = Some (s, e)"
  then have f: "find_real_items_loop content (finditer_table ''items'' content) = Some (s, e)"
    by (simp add: find_real_items_table_def)
  from find_real_items_loop_some [OF f] obtain pre post where
    pp: "finditer_table ''items'' content = pre @ (s, e) # post"
        "\<forall>x \<in> set pre. table_rejected content x"
        "\<not> table_rejected content (s, e)"
    by blast
  have mem: "(s, e) \<in> set (finditer_table ''items'' content)"
    using pp(1) by simp
  have acc: "\<not> inside_group_tree_status content s"
    "\<not> has_boolean_flags (slice e (fst (walk_from content e) - 1) content)"
    using pp(3) by (simp_all add: table_rejected_def)
  have t: "add_items_text items_dict content =
       (case add_items_loop content items_dict
               ([], \<lparr>added = 0, skipped = 0, errors = []\<rparr>) of
          (new_entries, result) \<Rightarrow>
            if new_entries \<noteq> []
            then (result,
                  Some (cleanup_ui_state (splice e (nl @ join nl new_entries) content)))
            else (result, None))"
    using add_items_text_located a by blast
  show "add_items_text items_dict content =
       (case add_items_loop content items_dict
               ([], \<lparr>added = 0, skipped = 0, errors = []\<rparr>) of
          (new_entries, result) \<Rightarrow>
            if new_entries \<noteq> []
            then (result,
                  Some (cleanup_ui_state (splice e (nl @ join nl new_entries) content)))
            else (result, None))
     \<and> (\<exists>pre post. finditer_table ''items'' content = pre @ (s, e) # post
            \<and> (\<forall>x \<in> set pre. table_rejected content x))
     \<and> \<not> inside_group_tree_status content s
     \<and> \<not> has_boolean_flags (slice e (fst (walk_from content e) - 1) content)
     \<and> s < e \<and> e \<le> length content \<and> content ! (e - 1) = CHR ''{''
     \<and> match_assign_at (quoted_key ''items'') ''{'' (drop s content) = Some (e - s)"
    using t pp(1,2) acc finditer_table_match [OF mem] by blast
qed

theorem add_items_first_accepted_table_witness:
  \<open>find_real_items_table
     ''AscensionTSMDB = {\<newline>["ui"] = {\<newline>["items"] = {\<newline>["1"] = true,\<newline>},\<newline>},\<newline>["items"] = {\<newline>},\<newline>}''
     = Some (64, 77)
   \<and> finditer_table ''items''
     ''AscensionTSMDB = {\<newline>["ui"] = {\<newline>["items"] = {\<newline>["1"] = true,\<newline>},\<newline>},\<newline>["items"] = {\<newline>},\<newline>}''
     = [(30, 43), (64, 77)]
   \<and> add_items_text [(5, ''G'')]
     ''AscensionTSMDB = {\<newline>["ui"] = {\<newline>["items"] = {\<newline>["1"] = true,\<newline>},\<newline>},\<newline>["items"] = {\<newline>},\<newline>}''
     = (\<lparr>added = 1, skipped = 0, errors = []\<rparr>,
        Some (''AscensionTSMDB = {\<newline>["ui"] = {\<newline>["items"] = {\<newline>["1"] = true,\<newline>},\<newline>},\<newline>["items"] = {\<newline>'' @ tabs 4 @
              ''["item:5:0:0:0:0:0:0"] = "G",\<newline>},\<newline>}''))\<close>
proof -
  let ?doc = \<open>''AscensionTSMDB = {\<newline>["ui"] = {\<newline>["items"] = {\<newline>["1"] = true,\<newline>},\<newline>},\<newline>["items"] = {\<newline>},\<newline>}''\<close>
  have fmt: "detect_tsm_format ?doc = ''ascension''" by code_simp
  have f: "find_real_items_table ?doc = Some (64, 77)" by code_simp
  have it: "finditer_table ''items'' ?doc = [(30, 43), (64, 77)]" by code_simp
  have ev: \<open>add_items_text [(5, ''G'')] ?doc
     = (\<lparr>added = 1, skipped = 0, errors = []\<rparr>,
        Some (''AscensionTSMDB = {\<newline>["ui"] = {\<newline>["items"] = {\<newline>["1"] = true,\<newline>},\<newline>},\<newline>["items"] = {\<newline>'' @ tabs 4 @
              ''["item:5:0:0:0:0:0:0"] = "G",\<newline>},\<newline>}''))\<close>
    by code_simp
  show ?thesis
    using add_items_first_accepted_table [of ?doc 64 77 "[(5, ''G'')]"] fmt f it ev
    by (simp only: simp_thms)
qed




text \<open>
  C7, as the claim states it, fails: renaming \<open>A`B\<close> to its parent \<open>A\<close> in a document
  that holds the group \<open>A`B`B\<close> turns that key into \<open>A`B\<close>, so the post-edit document
  holds the old path as an exact quoted value.
\<close>

theorem rename_group_counterexample:
  \<open>rename_group_text ''A`B'' ''A'' ''["A`B`B"] = {}''
     = (\<lparr>renamed = True, items_updated = 0, groups_updated = 1, rn_errors = []\<rparr>,
        Some ''["A`B"] = {}'')
   \<and> count_sub ''"A`B"'' ''["A`B"] = {}'' = 1\<close>
  by code_simp

text \<open>
  C7, amended. \<open>rename_group\<close> reports \<open>groups_updated = m + n\<close> (and
  \<open>items_updated = m\<close>), where \<open>m\<close> and \<open>n\<close> are the numbers of occurrences, counted from
  left to right without overlap, of the old path as an exact quoted value and of the old
  path followed by the separator after a quotation mark; when both are zero it fails
  with the error that the group was not found. The post-edit document holds no
  occurrence of the old path as an exact or prefixed quoted value provided that neither
  path holds a quotation mark, the paths differ, neither path followed by the separator
  is a prefix of the other, and the document holds no two exact occurrences that share a
  quotation mark.
\<close>

theorem rename_group_counts:
  \<open>fst (rename_group_text old_path new_path content)
     = (if count_sub (''"'' @ old_path @ ''"'') content = 0
           \<and> count_sub (''"'' @ old_path @ ''`'') content = 0
        then \<lparr>renamed = False, items_updated = 0, groups_updated = 0,
              rn_errors = [GroupNotFound old_path]\<rparr>
        else \<lparr>renamed = True,
              items_updated = count_sub (''"'' @ old_path @ ''"'') content,
              groups_updated = count_sub (''"'' @ old_path @ ''"'') content
                                + count_sub (''"'' @ old_path @ ''`'') content,
              rn_errors = []\<rparr>)
   \<and> (CHR 0x22 \<notin> set old_path \<and> CHR 0x22 \<notin> set new_path \<and> old_path \<noteq> new_path
        \<and> \<not> starts_with (old_path @ ''`'') new_path
        \<and> \<not> starts_with (new_path @ ''`'') old_path
        \<and> \<not> contains (''"'' @ old_path @ ''"'' @ old_path @ ''"'') content
        \<and> snd (rename_group_text old_path new_path content) = Some new_content
      \<longrightarrow> count_sub (''"'' @ old_path @ ''"'') new_content = 0
          \<and> count_sub (''"'' @ old_path @ ''`'') new_content = 0)\<close>
proof (intro conjI impI)
  show \<open>fst (rename_group_text old_path new_path content)
     = (if count_sub (''"'' @ old_path @ ''"'') content = 0
           \<and> count_sub (''"'' @ old_path @ ''`'') content = 0
        then \<lparr>renamed = False, items_updated = 0, groups_updated = 0,
              rn_errors = [GroupNotFound old_path]\<rparr>
        else \<lparr>renamed = True,
              items_updated = count_sub (''"'' @ old_path @ ''"'') content,
              groups_updated = count_sub (''"'' @ old_path @ ''"'') content
                                + count_sub (''"'' @ old_path @ ''`'') content,
              rn_errors = []\<rparr>)\<close>
    by (simp add: rename_group_text_def Let_def del: count_sub.simps replace_sub.simps)
next
  let ?q = "CHR 0x22" and ?b = "CHR ''`''"
  assume h: \<open>CHR 0x22 \<notin> set old_path \<and> CHR 0x22 \<notin> set new_path \<and> old_path \<noteq> new_path
        \<and> \<not> starts_with (old_path @ ''`'') new_path
        \<and> \<not> starts_with (new_path @ ''`'') old_path
        \<and> \<not> contains (''"'' @ old_path @ ''"'' @ old_path @ ''"'') content
        \<and> snd (rename_group_text old_path new_path content) = Some new_content\<close>
  then have q: "?q \<notin> set old_path" "?q \<notin> set new_path" and ne: "old_path \<noteq> new_path"
    and un: "\<not> starts_with (old_path @ [?b]) new_path"
            "\<not> starts_with (new_path @ [?b]) old_path"
    and ov: "\<not> contains (?q # old_path @ ?q # old_path @ [?q]) content"
    by simp_all
  have qb: "?q \<noteq> ?b" by simp
  define c1 where "c1 = replace_sub (?q # old_path @ [?q]) (?q # new_path @ [?q]) content"
  have nc: "new_content = replace_sub (?q # old_path @ [?b]) (?q # new_path @ [?b]) c1"
    using h unfolding c1_def
    by (auto simp: rename_group_text_def Let_def split: if_splits
          simp del: count_sub.simps replace_sub.simps)
  have e1: "\<not> contains (?q # old_path @ [?q]) c1"
    unfolding c1_def by (rule exact_replaced_everywhere [OF q ne ov])
  have e2: "\<not> contains (?q # old_path @ [?q]) new_content"
    unfolding nc by (rule exact_not_reintroduced [OF q qb un(2) e1])
  have p2: "\<not> contains (?q # old_path @ [?b]) new_content"
    unfolding nc by (rule prefixed_replaced_everywhere [OF q qb ne un])
  show \<open>count_sub (''"'' @ old_path @ ''"'') new_content = 0\<close>
    using e2 count_sub_zero_iff [of "?q # old_path @ [?q]" new_content] by simp
  show \<open>count_sub (''"'' @ old_path @ ''`'') new_content = 0\<close>
    using p2 count_sub_zero_iff [of "?q # old_path @ [?b]" new_content] by simp
qed

theorem rename_group_counts_witness:
  \<open>rename_group_text ''X'' ''Y'' ''["X"] = {},["X`Z"] = {},["i1"] = "X",["i2"] = "X",["i3"] = "X`Z",''
     = (\<lparr>renamed = True, items_updated = 3, groups_updated = 5, rn_errors = []\<rparr>,
        Some ''["Y"] = {},["Y`Z"] = {},["i1"] = "Y",["i2"] = "Y",["i3"] = "Y`Z",'')
   \<and> count_sub ''"X"'' ''["Y"] = {},["Y`Z"] = {},["i1"] = "Y",["i2"] = "Y",["i3"] = "Y`Z",'' = 0
   \<and> count_sub ''"X`'' ''["Y"] = {},["Y`Z"] = {},["i1"] = "Y",["i2"] = "Y",["i3"] = "Y`Z",'' = 0\<close>
proof -
  let ?doc = \<open>''["X"] = {},["X`Z"] = {},["i1"] = "X",["i2"] = "X",["i3"] = "X`Z",''\<close>
  let ?new = \<open>''["Y"] = {},["Y`Z"] = {},["i1"] = "Y",["i2"] = "Y",["i3"] = "Y`Z",''\<close>
  have ev: \<open>rename_group_text ''X'' ''Y'' ?doc
     = (\<lparr>renamed = True, items_updated = 3, groups_updated = 5, rn_errors = []\<rparr>,
        Some ?new)\<close>
    by code_simp
  have hyp: \<open>CHR 0x22 \<notin> set ''X'' \<and> CHR 0x22 \<notin> set ''Y'' \<and> ''X'' \<noteq> ''Y''
        \<and> \<not> starts_with (''X'' @ ''`'') ''Y''
        \<and> \<not> starts_with (''Y'' @ ''`'') ''X''
        \<and> \<not> contains (''"'' @ ''X'' @ ''"'' @ ''X'' @ ''"'') ?doc
        \<and> snd (rename_group_text ''X'' ''Y'' ?doc) = Some ?new\<close>
    by code_simp
  have c: \<open>count_sub (''"'' @ ''X'' @ ''"'') ?new = 0
           \<and> count_sub (''"'' @ ''X'' @ ''`'') ?new = 0\<close>
    using rename_group_counts [of "''X''" "''Y''" ?doc ?new] hyp by blast
  have a1: \<open>''"'' @ ''X'' @ ''"'' = ''"X"''\<close> by simp
  have a2: \<open>''"'' @ ''X'' @ ''`'' = ''"X`''\<close> by simp
  show ?thesis using ev c unfolding a1 a2 by (simp only: simp_thms)
qed

end
